theory Spec2Isabelle
  imports Main
begin

section \<open>Reference filter and deduplication\<close>

text \<open>
  The tail of \<open>parse_field_dependencies_page\<close> (the block after the table has been read)
  walks over the parsed triples \<open>(ref_type, ref_name, link)\<close>:
  \<^verbatim>\<open>
    filtered_refs = []
    last_flow = {}
    for ref_type, ref_name, link in all_refs:
        if ref_type == "ReportType":
            continue
        if ref_type == "Flow":
            last_flow[ref_name] = (ref_type, ref_name, link)
        else:
            filtered_refs.append((ref_type, ref_name, link))
    filtered_refs.extend(last_flow.values())
  \<close>
  A Python dictionary keeps its keys in insertion order, and assigning to a key that is
  already present replaces the value where the key stands. The dictionary is therefore an
  association list in which \<open>dict_set\<close> overwrites in place or appends at the end.
\<close>

type_synonym reference = "string \<times> string \<times> string"

definition ref_type :: "reference \<Rightarrow> string" where
  "ref_type r = fst r"

definition ref_name :: "reference \<Rightarrow> string" where
  "ref_name r = fst (snd r)"

definition ref_link :: "reference \<Rightarrow> string" where
  "ref_link r = snd (snd r)"

type_synonym ('k, 'v) pydict = "('k \<times> 'v) list"

fun dict_set :: "('k, 'v) pydict \<Rightarrow> 'k \<Rightarrow> 'v \<Rightarrow> ('k, 'v) pydict" where
  "dict_set [] k v = [(k, v)]"
| "dict_set ((k', v') # d) k v =
     (if k' = k then (k', v) # d else (k', v') # dict_set d k v)"

definition dict_values :: "('k, 'v) pydict \<Rightarrow> 'v list" where
  "dict_values d = map snd d"

definition dict_keys :: "('k, 'v) pydict \<Rightarrow> 'k list" where
  "dict_keys d = map fst d"

text \<open>The loop, with the two accumulators \<open>filtered_refs\<close> and \<open>last_flow\<close> passed along.\<close>

fun filter_loop ::
  "reference list \<Rightarrow> reference list \<Rightarrow> (string, reference) pydict
     \<Rightarrow> reference list \<times> (string, reference) pydict" where
  "filter_loop [] filtered_refs last_flow = (filtered_refs, last_flow)"
| "filter_loop ((rt, rn, link) # rest) filtered_refs last_flow =
     (if rt = ''ReportType'' then filter_loop rest filtered_refs last_flow
      else if rt = ''Flow'' then filter_loop rest filtered_refs (dict_set last_flow rn (rt, rn, link))
      else filter_loop rest (filtered_refs @ [(rt, rn, link)]) last_flow)"

definition filter_refs :: "reference list \<Rightarrow> reference list" where
  "filter_refs all_refs =
     (case filter_loop all_refs [] [] of
        (filtered_refs, last_flow) \<Rightarrow> filtered_refs @ dict_values last_flow)"

subsection \<open>Vocabulary of the specification\<close>

definition is_plain :: "reference \<Rightarrow> bool" where
  "is_plain r \<longleftrightarrow> ref_type r \<noteq> ''ReportType'' \<and> ref_type r \<noteq> ''Flow''"

definition is_flow :: "reference \<Rightarrow> bool" where
  "is_flow r \<longleftrightarrow> ref_type r = ''Flow''"

definition flows_named :: "string \<Rightarrow> reference list \<Rightarrow> reference list" where
  "flows_named n refs = filter (\<lambda>r. is_flow r \<and> ref_name r = n) refs"

text \<open>The part of the output that follows the pass-through references.\<close>

definition flow_survivors :: "reference list \<Rightarrow> reference list" where
  "flow_survivors refs = drop (length (filter is_plain refs)) (filter_refs refs)"

text \<open>Keeps the first occurrence of every element, in order.\<close>

fun first_occurrences :: "'a list \<Rightarrow> 'a list \<Rightarrow> 'a list" where
  "first_occurrences seen [] = []"
| "first_occurrences seen (x # xs) =
     (if x \<in> set seen then first_occurrences seen xs
      else x # first_occurrences (seen @ [x]) xs)"

text \<open>Scenario A of the specification's testable properties.\<close>

definition scenario_A :: "reference list" where
  "scenario_A = [(''Layout'', ''Page Layout 1'', ''''), (''Flow'', ''Flow X'', ''url1''),
                 (''Flow'', ''Flow X'', ''url2'')]"

section \<open>Identifier extractor\<close>

text \<open>
  Python strings are modelled as \<open>string\<close>. \<open>startswith\<close> is \<open>str.startswith\<close>.
\<close>

definition startswith :: "string \<Rightarrow> string \<Rightarrow> bool" where
  "startswith s p \<longleftrightarrow> take (length p) s = p"

text \<open>The character class \<open>[a-zA-Z0-9]\<close>.\<close>

definition is_alnum :: "char \<Rightarrow> bool" where
  "is_alnum c \<longleftrightarrow>
     (let n = (of_char c :: nat)
      in (97 \<le> n \<and> n \<le> 122) \<or> (65 \<le> n \<and> n \<le> 90) \<or> (48 \<le> n \<and> n \<le> 57))"

text \<open>
  \<^verbatim>\<open>
    object_id_pattern = r'/ObjectManager/([a-zA-Z0-9]{15,18})/'
    match = re.search(object_id_pattern, url)
    if match:
        return match.group(1)
    return None
  \<close>
  The group is greedy: at a given start the engine tries the repetition counts
  18, 17, 16, 15 in this order and takes the first after which a \<open>/\<close> follows.
  \<open>match_group\<close> is that backtracking, on the text behind the literal prefix;
  \<open>re.search\<close> tries the start positions from left to right.
\<close>

fun match_group :: "nat list \<Rightarrow> string \<Rightarrow> string option" where
  "match_group [] s = None"
| "match_group (k # ks) s =
     (if k < length s \<and> list_all is_alnum (take k s) \<and> s ! k = CHR ''/''
      then Some (take k s) else match_group ks s)"

definition object_id_match_at :: "string \<Rightarrow> string option" where
  "object_id_match_at s =
     (if startswith s ''/ObjectManager/''
      then match_group [18, 17, 16, 15] (drop (length ''/ObjectManager/'') s)
      else None)"

fun re_search_object_id :: "string \<Rightarrow> string option" where
  "re_search_object_id [] = object_id_match_at []"
| "re_search_object_id (c # cs) =
     (case object_id_match_at (c # cs) of
        Some g \<Rightarrow> Some g
      | None \<Rightarrow> re_search_object_id cs)"

definition extract_object_id_from_url :: "string \<Rightarrow> string option" where
  "extract_object_id_from_url url =
     (case re_search_object_id url of
        Some object_id \<Rightarrow> Some object_id
      | None \<Rightarrow> None)"

subsection \<open>Vocabulary of the specification\<close>

text \<open>
  A 15 to 18 character alphanumeric segment inside an object-manager path: the text
  between \<open>/ObjectManager/\<close> and the next \<open>/\<close>. \<open>segment_at url i seg\<close> places the
  \<open>/ObjectManager/\<close> in front of it at offset \<open>i\<close> of the URL.
\<close>

definition id_shaped :: "string \<Rightarrow> bool" where
  "id_shaped seg \<longleftrightarrow> 15 \<le> length seg \<and> length seg \<le> 18 \<and> list_all is_alnum seg"

definition segment_at :: "string \<Rightarrow> nat \<Rightarrow> string \<Rightarrow> bool" where
  "segment_at url i seg \<longleftrightarrow>
     id_shaped seg \<and>
     take (length ''/ObjectManager/'' + length seg + 1) (drop i url)
       = ''/ObjectManager/'' @ seg @ ''/''"

definition object_manager_segment :: "string \<Rightarrow> string \<Rightarrow> bool" where
  "object_manager_segment url seg \<longleftrightarrow> (\<exists>i \<in> {0..length url}. segment_at url i seg)"

definition url_two_managers :: string where
  "url_two_managers =
     ''https://x.my.salesforce.com/lightning/setup/ObjectManager/01I000000000001/ObjectManager/01I000000000002/view''"

definition url_custom_object :: string where
  "url_custom_object =
     ''https://x.my.salesforce.com/lightning/setup/ObjectManager/01I5e000000abcdEAA/FieldsAndRelationships/view''"

definition url_standard_object :: string where
  "url_standard_object =
     ''https://x.my.salesforce.com/lightning/setup/ObjectManager/Account/FieldsAndRelationships/view''"

section \<open>Reference link resolver\<close>

text \<open>
  A call into the browser may raise. \<open>PWTimeout\<close> is Playwright's timeout error, which
  the source tells apart in two places; \<open>Error\<close> is any other exception.
\<close>

datatype exn = PWTimeout | Error

text \<open>Python's \<open>xs[i]\<close>: a negative index counts from the end, out of range raises.\<close>

definition py_index :: "'a list \<Rightarrow> int \<Rightarrow> exn + 'a" where
  "py_index xs i =
     (if 0 \<le> i \<and> i < int (length xs) then Inr (xs ! nat i)
      else if i < 0 \<and> - int (length xs) \<le> i then Inr (xs ! nat (int (length xs) + i))
      else Inl Error)"

text \<open>
  What \<open>extract_reference_link\<close> reads of a table row: \<open>row.locator(".dataCell").all()\<close>
  gives the cells or raises, \<open>target_cell.locator("a").all()\<close> gives the anchors of a cell
  or raises, and \<open>link.get_attribute("href")\<close> gives a string, \<open>None\<close>, or raises.
\<close>

type_synonym anchor = "exn + string option"
type_synonym cell_dom = "exn + anchor list"
type_synonym row_dom = "exn + cell_dom list"

text \<open>
  \<^verbatim>\<open>re.search(r"javascript:srcUp\('([^']+)'\)", href)\<close>: the group is the longest run of
  characters other than the quote behind \<open>javascript:srcUp('\<close>; it must not be empty and
  the quote and the closing parenthesis must follow it. A shorter run cannot match, since
  the character behind it would have to be the quote.
\<close>

definition quote :: char where
  "quote = CHR 0x27"

definition srcup_open :: string where
  "srcup_open = ''javascript:srcUp('' @ [quote]"

definition srcup_match_at :: "string \<Rightarrow> string option" where
  "srcup_match_at s =
     (if startswith s srcup_open
      then (let rest = drop (length srcup_open) s;
                inner = takeWhile (\<lambda>c. c \<noteq> quote) rest
            in if inner \<noteq> [] \<and> startswith (drop (length inner) rest) (quote # '')'')
               then Some inner else None)
      else None)"

fun re_search_srcup :: "string \<Rightarrow> string option" where
  "re_search_srcup [] = srcup_match_at []"
| "re_search_srcup (c # cs) =
     (case srcup_match_at (c # cs) of
        Some g \<Rightarrow> Some g
      | None \<Rightarrow> re_search_srcup cs)"

text \<open>
  The loop over the anchors of the target cell. \<open>unquote\<close> stands for
  \<open>urllib.parse.unquote\<close>, a total function on strings, and \<open>instance\<close> for the command
  line's \<open>args.instance\<close>. An exception inside the loop body is caught there and the loop
  goes on with the next anchor.
  \<^verbatim>\<open>
    for link in links:
        try:
            raw_href = await link.get_attribute("href")
            if not raw_href:
                continue
            href = urllib.parse.unquote(raw_href)
            if href.startswith("javascript:srcUp("):
                match = re.search(r"javascript:srcUp\('([^']+)'\)", href)
                if match:
                    partial_url = match.group(1)
                    decoded_url = urllib.parse.unquote(partial_url)
                    if decoded_url.startswith("/"):
                        return f"https://{args.instance}{decoded_url}"
            elif href.startswith("/"):
                return f"https://{args.instance}{href}"
            elif href.startswith("http"):
                return href
        except Exception as e:
            continue
    return ""
  \<close>
\<close>

fun link_loop :: "(string \<Rightarrow> string) \<Rightarrow> string \<Rightarrow> anchor list \<Rightarrow> string" where
  "link_loop unquote instance [] = ''''"
| "link_loop unquote instance (link # links) =
     (case link of
        Inl e \<Rightarrow> link_loop unquote instance links
      | Inr None \<Rightarrow> link_loop unquote instance links
      | Inr (Some raw_href) \<Rightarrow>
          if raw_href = [] then link_loop unquote instance links
          else
            (let href = unquote raw_href in
             if startswith href ''javascript:srcUp('' then
               (case re_search_srcup href of
                  Some partial_url \<Rightarrow>
                    (let decoded_url = unquote partial_url in
                     if startswith decoded_url ''/''
                     then ''https://'' @ instance @ decoded_url
                     else link_loop unquote instance links)
                | None \<Rightarrow> link_loop unquote instance links)
             else if startswith href ''/'' then ''https://'' @ instance @ href
             else if startswith href ''http'' then href
             else link_loop unquote instance links))"

text \<open>The body of the outer \<open>try\<close>: it returns a string or raises.\<close>

definition extract_reference_link_body ::
  "(string \<Rightarrow> string) \<Rightarrow> string \<Rightarrow> row_dom \<Rightarrow> int \<Rightarrow> exn + string" where
  "extract_reference_link_body unquote instance row cell_index =
     (case row of
        Inl e \<Rightarrow> Inl e
      | Inr cells \<Rightarrow>
          if int (length cells) \<le> cell_index then Inr ''''
          else
            (case py_index cells cell_index of
               Inl e \<Rightarrow> Inl e
             | Inr target_cell \<Rightarrow>
                 (case target_cell of
                    Inl e \<Rightarrow> Inl e
                  | Inr links \<Rightarrow>
                      if links = [] then Inr ''''
                      else Inr (link_loop unquote instance links))))"

text \<open>The function: the outer \<open>except Exception\<close> turns every exception into \<open>""\<close>.\<close>

definition extract_reference_link ::
  "(string \<Rightarrow> string) \<Rightarrow> string \<Rightarrow> row_dom \<Rightarrow> int \<Rightarrow> exn + string" where
  "extract_reference_link unquote instance row cell_index =
     (case extract_reference_link_body unquote instance row cell_index of
        Inl e \<Rightarrow> Inr ''''
      | Inr url \<Rightarrow> Inr url)"

subsection \<open>Vocabulary of the specification\<close>

definition base_url :: "string \<Rightarrow> string" where
  "base_url instance = ''https://'' @ instance"

text \<open>The anchors of the cell the index selects; none when the cell cannot be read.\<close>

definition target_links :: "row_dom \<Rightarrow> int \<Rightarrow> anchor list" where
  "target_links row cell_index =
     (case row of
        Inl e \<Rightarrow> []
      | Inr cells \<Rightarrow>
          if int (length cells) \<le> cell_index then []
          else (case py_index cells cell_index of
                  Inr (Inr links) \<Rightarrow> links
                | _ \<Rightarrow> []))"

text \<open>The decoded hrefs of the anchors that have a non-empty href, in document order.\<close>

fun decoded_hrefs :: "(string \<Rightarrow> string) \<Rightarrow> anchor list \<Rightarrow> string list" where
  "decoded_hrefs unquote [] = []"
| "decoded_hrefs unquote (Inr (Some raw) # links) =
     (if raw = [] then decoded_hrefs unquote links
      else unquote raw # decoded_hrefs unquote links)"
| "decoded_hrefs unquote (_ # links) = decoded_hrefs unquote links"

text \<open>
  A pseudo-navigation expression wrapping an encoded root-relative path, and the decoded
  inner path it wraps.
\<close>

definition pseudo_nav_path :: "(string \<Rightarrow> string) \<Rightarrow> string \<Rightarrow> string option" where
  "pseudo_nav_path unquote href =
     (if startswith href ''javascript:srcUp(''
      then (case re_search_srcup href of
              Some inner \<Rightarrow> if startswith (unquote inner) ''/'' then Some (unquote inner) else None
            | None \<Rightarrow> None)
      else None)"

definition root_relative :: "string \<Rightarrow> bool" where
  "root_relative href \<longleftrightarrow> startswith href ''/''"

definition absolute :: "string \<Rightarrow> bool" where
  "absolute href \<longleftrightarrow> startswith href ''http''"

definition usable :: "(string \<Rightarrow> string) \<Rightarrow> string \<Rightarrow> bool" where
  "usable unquote href \<longleftrightarrow>
     pseudo_nav_path unquote href \<noteq> None \<or> root_relative href \<or> absolute href"

text \<open>
  Percent-decoding of \<open>%XX\<close> escapes into the byte they name. It agrees with
  \<open>urllib.parse.unquote\<close> on every string whose decoded bytes are ASCII, and serves as
  the decoder in the concrete instances below.
\<close>

definition hex_val :: "char \<Rightarrow> nat option" where
  "hex_val c =
     (let n = (of_char c :: nat)
      in if 48 \<le> n \<and> n \<le> 57 then Some (n - 48)
         else if 97 \<le> n \<and> n \<le> 102 then Some (n - 87)
         else if 65 \<le> n \<and> n \<le> 70 then Some (n - 55)
         else None)"

fun pct_decode :: "string \<Rightarrow> string" where
  "pct_decode (c # h1 # h2 # rest) =
     (if c = CHR ''%'' then
        (case (hex_val h1, hex_val h2) of
           (Some a, Some b) \<Rightarrow> char_of (16 * a + b) # pct_decode rest
         | _ \<Rightarrow> c # pct_decode (h1 # h2 # rest))
      else c # pct_decode (h1 # h2 # rest))"
| "pct_decode cs = cs"

definition row_srcup :: row_dom where
  "row_srcup =
     Inr [Inr [], Inr [Inl Error, Inr None, Inr (Some ''#''),
                       Inr (Some ''javascript:srcUp(%27%2F01p5e000000abcd%3Fisdtp%3Dp1%27);''),
                       Inr (Some ''/ignored'')]]"

definition row_relative :: row_dom where
  "row_relative = Inr [Inr [], Inr [Inr (Some ''/00h5e000001xyz%20'')]]"

definition row_absolute :: row_dom where
  "row_absolute = Inr [Inr [], Inr [Inr (Some ''https://example.com/a'')]]"

definition row_nolink :: row_dom where
  "row_nolink = Inr [Inr [], Inr [Inr (Some ''mailto:x''), Inr (Some ''javascript:srcUp(1)'')]]"

definition href_srcup :: string where
  "href_srcup = ''javascript:srcUp('' @ [quote] @ ''/01p5e000000abcd?isdtp=p1'' @ [quote] @ '');''"

section \<open>The worksheet\<close>

text \<open>
  A cell of the openpyxl worksheet holds a dynamically typed value and may carry a
  hyperlink. The worksheet is addressed by row and column, both counted from 1; a cell
  that was never written is empty.
\<close>

datatype cell_value = VNone | VStr string | VNum int | VBool bool

record cell =
  val :: cell_value
  hyperlink :: "string option"

type_synonym sheet = "nat \<Rightarrow> nat \<Rightarrow> cell"

definition empty_cell :: cell where
  "empty_cell = \<lparr>val = VNone, hyperlink = None\<rparr>"

text \<open>Python's truth value of a cell value, as \<open>if value\<close> and \<open>not value\<close> take it.\<close>

fun truthy :: "cell_value \<Rightarrow> bool" where
  "truthy VNone = False"
| "truthy (VStr s) = (s \<noteq> [])"
| "truthy (VNum n) = (n \<noteq> 0)"
| "truthy (VBool b) = b"

text \<open>
  \<open>ws.insert_rows(idx, amount)\<close> moves every cell of a row at or below \<open>idx\<close> down by
  \<open>amount\<close> rows, hyperlink included, and leaves \<open>amount\<close> empty rows at \<open>idx\<close>.
\<close>

definition insert_rows :: "sheet \<Rightarrow> nat \<Rightarrow> nat \<Rightarrow> sheet" where
  "insert_rows ws idx amount =
     (\<lambda>r c. if r < idx then ws r c
            else if r < idx + amount then empty_cell
            else ws (r - amount) c)"

text \<open>
  Writing a text to a cell goes through \<open>Cell.check_string\<close> of openpyxl:
  \<^verbatim>\<open>
    value = value[:32767]
    if next(ILLEGAL_CHARACTERS_RE.finditer(value), None):
        raise IllegalCharacterError(f"{value} cannot be used in worksheets.")
    return value
  \<close>
  where \<open>ILLEGAL_CHARACTERS_RE\<close> matches the characters with the octal codes 000 to 010,
  013 to 014 and 016 to 037: the control characters other than tab, line feed and
  carriage return. The text is cut to 32767 characters first and is refused when what is
  left holds such a character. \<open>first_chars n s\<close> is the slice \<open>s[:n]\<close> for a bound
  \<open>n\<close> that is not negative.
\<close>

fun first_chars :: "int \<Rightarrow> string \<Rightarrow> string" where
  "first_chars n [] = []"
| "first_chars n (c # s) = (if n \<le> 0 then [] else c # first_chars (n - 1) s)"

definition illegal_char :: "char \<Rightarrow> bool" where
  "illegal_char c \<longleftrightarrow>
     (let n = (of_char c :: nat) in n \<le> 8 \<or> (11 \<le> n \<and> n \<le> 12) \<or> (14 \<le> n \<and> n \<le> 31))"

definition check_string :: "string \<Rightarrow> exn + string" where
  "check_string s =
     (let v = first_chars 32767 s in if list_ex illegal_char v then Inl Error else Inr v)"

text \<open>The cell \<open>(r, c)\<close> gets the value \<open>v\<close> and keeps its hyperlink.\<close>

definition put_value :: "sheet \<Rightarrow> nat \<Rightarrow> nat \<Rightarrow> cell_value \<Rightarrow> sheet" where
  "put_value ws r c v =
     (\<lambda>r' c'. if r' = r \<and> c' = c then (ws r c)\<lparr>val := v\<rparr> else ws r' c')"

text \<open>
  \<open>ws.cell(row=r, column=c, value=s)\<close> with a text \<open>s\<close>: the checked text becomes the
  value, or the check raises and the worksheet is as it was.
\<close>

definition set_value :: "sheet \<Rightarrow> nat \<Rightarrow> nat \<Rightarrow> string \<Rightarrow> exn + sheet" where
  "set_value ws r c s =
     (case check_string s of
        Inl e \<Rightarrow> Inl e
      | Inr v \<Rightarrow> Inr (put_value ws r c (VStr v)))"

text \<open>
  \<open>cell.hyperlink = url\<close>, the setter of openpyxl:
  \<^verbatim>\<open>
    val = Hyperlink(ref="", target=val)
    val.ref = self.coordinate
    self._hyperlink = val
    if self._value is None:
        self.value = val.target or val.location
  \<close>
  The cell has its hyperlink before the target is made the value of a cell that has none,
  and that assignment checks the text like every other. The result is the worksheet
  and the exception, if one was raised.
\<close>

definition set_hyperlink :: "sheet \<Rightarrow> nat \<Rightarrow> nat \<Rightarrow> string \<Rightarrow> sheet \<times> exn option" where
  "set_hyperlink ws r c url =
     (let ws1 = (\<lambda>r' c'. if r' = r \<and> c' = c then (ws r c)\<lparr>hyperlink := Some url\<rparr>
                          else ws r' c')
      in if val (ws r c) = VNone \<and> url \<noteq> []
         then (case check_string url of
                 Inl e \<Rightarrow> (ws1, Some e)
               | Inr v \<Rightarrow> (put_value ws1 r c (VStr v), None))
         else (ws1, None))"

section \<open>Merge writer\<close>

text \<open>
  The block of \<open>main\<close> that writes one field's references below its row:
  \<^verbatim>\<open>
    field_cell = ws.cell(row=current_row, column=1)
    field_cell.hyperlink = field_url
    if refs:
        ws.insert_rows(current_row + 1, amount=len(refs))
        for j, (ref_type, ref_name, link) in enumerate(refs):
            insert_row_index = current_row + 1 + j
            ws.cell(row=insert_row_index, column=9, value=ref_type)
            ref_cell = ws.cell(row=insert_row_index, column=10, value=ref_name)
            if link:
                ref_cell.hyperlink = link
        rows_inserted += len(refs)
    else:
        ws.insert_rows(current_row + 1, amount=1)
        ws.cell(row=current_row + 1, column=9, value="No references found")
        rows_inserted += 1
  \<close>
  The worksheet is changed in place, so a statement that raises leaves what the
  statements before it did: every function returns the worksheet as it is when the
  block is left, together with the exception, if one was raised. \<open>write_ref_row\<close> is the
  body of the inner loop and \<open>write_refs\<close> the loop, \<open>insert_row_index\<close> counting up
  with \<open>j\<close>. \<open>merge_write\<close> returns the worksheet and, when nothing raised, the number the
  block adds to \<open>rows_inserted\<close>; the additions are the last statements of their
  branches, so a block left by an exception has added nothing.
\<close>

definition no_references_marker :: string where
  "no_references_marker = ''No references found''"

fun write_ref_row :: "sheet \<Rightarrow> nat \<Rightarrow> reference \<Rightarrow> sheet \<times> exn option" where
  "write_ref_row ws insert_row_index (rt, rn, link) =
     (case set_value ws insert_row_index 9 rt of
        Inl e \<Rightarrow> (ws, Some e)
      | Inr ws1 \<Rightarrow>
          (case set_value ws1 insert_row_index 10 rn of
             Inl e \<Rightarrow> (ws1, Some e)
           | Inr ws2 \<Rightarrow>
               if link \<noteq> [] then set_hyperlink ws2 insert_row_index 10 link else (ws2, None)))"

fun write_refs :: "sheet \<Rightarrow> nat \<Rightarrow> reference list \<Rightarrow> sheet \<times> exn option" where
  "write_refs ws insert_row_index [] = (ws, None)"
| "write_refs ws insert_row_index (ref # rest) =
     (case write_ref_row ws insert_row_index ref of
        (ws', Some e) \<Rightarrow> (ws', Some e)
      | (ws', None) \<Rightarrow> write_refs ws' (insert_row_index + 1) rest)"

definition merge_write :: "sheet \<Rightarrow> nat \<Rightarrow> string \<Rightarrow> reference list \<Rightarrow> sheet \<times> (exn + nat)" where
  "merge_write ws current_row field_url refs =
     (case set_hyperlink ws current_row 1 field_url of
        (ws1, Some e) \<Rightarrow> (ws1, Inl e)
      | (ws1, None) \<Rightarrow>
          if refs \<noteq> []
          then (case write_refs (insert_rows ws1 (current_row + 1) (length refs))
                       (current_row + 1) refs of
                  (ws2, Some e) \<Rightarrow> (ws2, Inl e)
                | (ws2, None) \<Rightarrow> (ws2, Inr (length refs)))
          else (case set_value (insert_rows ws1 (current_row + 1) 1) (current_row + 1) 9
                       no_references_marker of
                  Inl e \<Rightarrow> (insert_rows ws1 (current_row + 1) 1, Inl e)
                | Inr ws2 \<Rightarrow> (ws2, Inr 1)))"

subsection \<open>Vocabulary of the specification\<close>

text \<open>
  A text the worksheet takes as it is: not longer than 32767 characters and free of the
  characters openpyxl refuses. \<open>stored\<close> is a reference as the worksheet keeps it, type
  and name cut to that length.
\<close>

definition cell_text_ok :: "string \<Rightarrow> bool" where
  "cell_text_ok s \<longleftrightarrow> length s \<le> 32767 \<and> \<not> list_ex illegal_char s"

definition stored :: "reference \<Rightarrow> reference" where
  "stored ref = (take 32767 (ref_type ref), take 32767 (ref_name ref), ref_link ref)"

text \<open>The row a reference is written as: type in column 9, name in column 10 with the link.\<close>

definition reference_row :: "reference \<Rightarrow> nat \<Rightarrow> cell" where
  "reference_row ref c =
     (if c = 9 then \<lparr>val = VStr (ref_type ref), hyperlink = None\<rparr>
      else if c = 10 then
        \<lparr>val = VStr (ref_name ref),
         hyperlink = (if ref_link ref = [] then None else Some (ref_link ref))\<rparr>
      else empty_cell)"

definition marker_row :: "nat \<Rightarrow> cell" where
  "marker_row c =
     (if c = 9 then \<lparr>val = VStr no_references_marker, hyperlink = None\<rparr> else empty_cell)"

text \<open>
  \<open>rows_inserted_at ws ws' R n\<close>: the worksheet \<open>ws'\<close> is \<open>ws\<close> with exactly \<open>n\<close> new rows
  at the positions \<open>R + 1\<close> to \<open>R + n\<close>: the rows up to \<open>R\<close> stand where they stood (the
  field's label cell at \<open>(R, 1)\<close> apart, which received its hyperlink) and every row below
  \<open>R\<close> stands \<open>n\<close> rows lower.
\<close>

definition rows_inserted_at :: "sheet \<Rightarrow> sheet \<Rightarrow> nat \<Rightarrow> nat \<Rightarrow> string \<Rightarrow> bool" where
  "rows_inserted_at ws ws' R n field_url \<longleftrightarrow>
     (\<forall>r c. r \<le> R \<and> (r, c) \<noteq> (R, 1) \<longrightarrow> ws' r c = ws r c)
     \<and> hyperlink (ws' R 1) = Some field_url
     \<and> (\<forall>r c. R < r \<longrightarrow> ws' (r + n) c = ws r c)"

section \<open>Pre-scan of the work list\<close>

record work_item =
  api_name :: cell_value
  label :: cell_value
  original_row :: nat

text \<open>
  \<open>str.strip\<close> and \<open>str.lower\<close> on ASCII text. Python counts the characters 9 to 13,
  28 to 31 and the blank as white space.
\<close>

definition is_space :: "char \<Rightarrow> bool" where
  "is_space c \<longleftrightarrow>
     (let n = (of_char c :: nat) in (9 \<le> n \<and> n \<le> 13) \<or> (28 \<le> n \<and> n \<le> 32))"

definition py_strip :: "string \<Rightarrow> string" where
  "py_strip s = rev (dropWhile is_space (rev (dropWhile is_space s)))"

definition lower_char :: "char \<Rightarrow> char" where
  "lower_char c =
     (let n = (of_char c :: nat) in if 65 \<le> n \<and> n \<le> 90 then char_of (n + 32) else c)"

definition py_lower :: "string \<Rightarrow> string" where
  "py_lower s = map lower_char s"

text \<open>
  The search for the start row:
  \<^verbatim>\<open>
    for r_idx in range(2, ws.max_row + 1):
        label = ws.cell(row=r_idx, column=1).value
        if label and label.strip() == args.start_at_label.strip():
            start_row = r_idx
            break
    else:
        return
  \<close>
  A truthy label that is not a string has no \<open>strip\<close>: the attribute error is raised
  outside every \<open>try\<close>. \<open>Inr None\<close> is the \<open>else\<close> branch of the loop.
\<close>

fun find_start_row :: "sheet \<Rightarrow> string \<Rightarrow> nat list \<Rightarrow> exn + nat option" where
  "find_start_row ws start_at_label [] = Inr None"
| "find_start_row ws start_at_label (r_idx # rest) =
     (case val (ws r_idx 1) of
        VStr l \<Rightarrow>
          if l \<noteq> [] \<and> py_strip l = py_strip start_at_label then Inr (Some r_idx)
          else find_start_row ws start_at_label rest
      | v \<Rightarrow> if truthy v then Inl Error else find_start_row ws start_at_label rest)"

text \<open>
  The scan itself:
  \<^verbatim>\<open>
    limit = args.limit if args.limit is not None else (ws.max_row - start_row + 1)
    end_row = start_row + limit
    for row_idx in range(start_row, min(end_row, ws.max_row + 1)):
        api_name_cell = ws.cell(row=row_idx, column=2)
        label_cell = ws.cell(row=row_idx, column=1)
        if api_name_cell.value and label_cell.value
               and not ws.cell(row=row_idx + 1, column=9).value:
            fields_to_process.append({"api_name": api_name_cell.value,
                "label": label_cell.value, "original_row": row_idx})
  \<close>
  \<open>max_row\<close> is \<open>ws.max_row\<close> as the scan reads it.
\<close>

fun scan_rows :: "sheet \<Rightarrow> nat list \<Rightarrow> work_item list" where
  "scan_rows ws [] = []"
| "scan_rows ws (row_idx # rest) =
     (if truthy (val (ws row_idx 2)) \<and> truthy (val (ws row_idx 1))
         \<and> \<not> truthy (val (ws (row_idx + 1) 9))
      then \<lparr>api_name = val (ws row_idx 2), label = val (ws row_idx 1), original_row = row_idx\<rparr>
             # scan_rows ws rest
      else scan_rows ws rest)"

definition prescan :: "sheet \<Rightarrow> nat \<Rightarrow> nat \<Rightarrow> int option \<Rightarrow> work_item list" where
  "prescan ws max_row start_row limit_arg =
     (let limit = (case limit_arg of Some l \<Rightarrow> l | None \<Rightarrow> int max_row - int start_row + 1);
          end_row = int start_row + limit
      in scan_rows ws [start_row ..< nat (min end_row (int max_row + 1))])"

subsection \<open>Vocabulary of the specification\<close>

text \<open>A cell is empty when it has no value or the empty text.\<close>

definition cell_empty :: "cell_value \<Rightarrow> bool" where
  "cell_empty v \<longleftrightarrow> v = VNone \<or> v = VStr []"

text \<open>The marker column of a row: column 9 of the row below it.\<close>

definition marker_of :: "sheet \<Rightarrow> nat \<Rightarrow> cell_value" where
  "marker_of ws r = val (ws (r + 1) 9)"

text \<open>
  A sheet with one field in row 2 and the number 0 in column 9 of row 3, and the sheet
  with that field alone.
\<close>

definition sheet_one_field :: sheet where
  "sheet_one_field =
     (\<lambda>r c. if r = 2 \<and> c = 1 then \<lparr>val = VStr ''My Field'', hyperlink = None\<rparr>
            else if r = 2 \<and> c = 2 then \<lparr>val = VStr ''My_Field__c'', hyperlink = None\<rparr>
            else empty_cell)"

definition sheet_zero_marker :: sheet where
  "sheet_zero_marker = put_value sheet_one_field 3 9 (VNum 0)"

text \<open>Scenario B of the specification: the parse yields one report type only.\<close>

definition scenario_B :: "reference list" where
  "scenario_B = [(''ReportType'', ''RT1'', '''')]"

definition field_url_0 :: string where
  "field_url_0 = ''https://x.my.salesforce.com/lightning/setup/ObjectManager/01I5e000000abcdEAA/FieldsAndRelationships/00N5e00000abcde/fieldDependencies''"

section \<open>Navigation: from the field list to a field's dependencies\<close>

subsection \<open>The field identifier in a URL\<close>

text \<open>
  \<^verbatim>\<open>
    field_id_pattern = r'/(00N[a-zA-Z0-9]{12,15})'
    match = re.search(field_id_pattern, url)
    if match:
        return match.group(1)
    if 'address=' in url:
        address_param = url.split('address=')[1].split('&')[0]
        decoded_address = urllib.parse.unquote(address_param)
        match = re.search(field_id_pattern, decoded_address)
        if match:
            return match.group(1)
    return None
  \<close>
  Nothing follows the group in the pattern, so the greedy repetition keeps up to 15
  characters of the alphanumeric run and needs 12.
\<close>

definition field_id_match_at :: "string \<Rightarrow> string option" where
  "field_id_match_at s =
     (if startswith s ''/00N''
      then (let run = takeWhile is_alnum (drop (length ''/00N'') s)
            in if 12 \<le> length run then Some (''00N'' @ take 15 run) else None)
      else None)"

fun re_search_field_id :: "string \<Rightarrow> string option" where
  "re_search_field_id [] = field_id_match_at []"
| "re_search_field_id (c # cs) =
     (case field_id_match_at (c # cs) of
        Some g \<Rightarrow> Some g
      | None \<Rightarrow> re_search_field_id cs)"

text \<open>
  \<open>s.split(sep)[1]\<close> is \<open>before_first sep\<close> of what \<open>after_first sep s\<close> finds, and
  \<open>s.split(sep)[0]\<close> is \<open>before_first sep s\<close>.
\<close>

fun after_first :: "string \<Rightarrow> string \<Rightarrow> string option" where
  "after_first sep [] = None"
| "after_first sep (c # cs) =
     (if startswith (c # cs) sep then Some (drop (length sep) (c # cs))
      else after_first sep cs)"

fun before_first :: "string \<Rightarrow> string \<Rightarrow> string" where
  "before_first sep [] = []"
| "before_first sep (c # cs) =
     (if startswith (c # cs) sep then [] else c # before_first sep cs)"

definition extract_field_id_from_url :: "(string \<Rightarrow> string) \<Rightarrow> string \<Rightarrow> string option" where
  "extract_field_id_from_url unquote url =
     (case re_search_field_id url of
        Some field_id \<Rightarrow> Some field_id
      | None \<Rightarrow>
          (case after_first ''address='' url of
             Some tail \<Rightarrow>
               (let address_param = before_first ''&'' (before_first ''address='' tail);
                    decoded_address = unquote address_param
                in re_search_field_id decoded_address)
           | None \<Rightarrow> None))"

subsection \<open>The selectors for a field's link\<close>

definition backslash :: char where
  "backslash = CHR 0x5C"

text \<open>\<open>re.escape\<close>: a backslash in front of each special character.\<close>

definition re_special :: "char \<Rightarrow> bool" where
  "re_special c \<longleftrightarrow>
     c \<in> set (''()[]{}?*+-|^$.&~# '' @ [backslash, CHR 0x09, CHR 0x0A, CHR 0x0D, CHR 0x0B, CHR 0x0C])"

definition re_escape :: "string \<Rightarrow> string" where
  "re_escape s = concat (map (\<lambda>c. if re_special c then [backslash, c] else [c]) s)"

text \<open>\<open>s.replace(old, new)\<close> for a one-character \<open>old\<close>.\<close>

definition replace_char :: "char \<Rightarrow> string \<Rightarrow> string \<Rightarrow> string" where
  "replace_char old new s = concat (map (\<lambda>c. if c = old then new else [c]) s)"

text \<open>
  \<^verbatim>\<open>
    escaped_for_regex = re.escape(field_label)
    escaped_for_css_string = field_label.replace("\\", "\\\\").replace("'", "\\'")
    field_link_selectors = [
        f"a:has-text('{escaped_for_css_string}')",
        f"th a:text-matches('^{escaped_for_regex}$', 'i')",
        f"td a:text-matches('^{escaped_for_regex}$', 'i')",
        f"a[title='{escaped_for_css_string}']"
    ]
  \<close>
\<close>

definition escaped_for_css_string :: "string \<Rightarrow> string" where
  "escaped_for_css_string field_label =
     replace_char quote [backslash, quote]
       (replace_char backslash [backslash, backslash] field_label)"

definition field_link_selectors :: "string \<Rightarrow> string list" where
  "field_link_selectors field_label =
     [''a:has-text('' @ [quote] @ escaped_for_css_string field_label @ [quote] @ '')'',
      ''th a:text-matches('' @ [quote] @ ''^'' @ re_escape field_label @ ''$'' @ [quote]
         @ '', '' @ [quote] @ ''i'' @ [quote] @ '')'',
      ''td a:text-matches('' @ [quote] @ ''^'' @ re_escape field_label @ ''$'' @ [quote]
         @ '', '' @ [quote] @ ''i'' @ [quote] @ '')'',
      ''a[title='' @ [quote] @ escaped_for_css_string field_label @ [quote] @ '']'']"

subsection \<open>Clicking the field in the filtered table\<close>

text \<open>
  What the browser answers. A link gives its text or raises; clicking it raises, or the
  click goes through and waiting for the load raises, or the page lands on a URL. A
  selector yields the links that match it, or raises (a timeout when nothing matches).
\<close>

datatype click_outcome = ClickRaises exn | LoadRaises exn | Landed string

record field_link =
  inner_text :: "exn + string"
  click :: click_outcome

datatype located = Links "field_link list" | Raises exn

type_synonym table_view = "string \<Rightarrow> located"

text \<open>
  The loop over the links of one selector. It returns the texts of the links on which it
  called \<open>click\<close>, and \<open>Some r\<close> when the function returned \<open>r\<close> from inside the loop.
  An exception in the body, also one raised by the click, is caught and the loop goes on.
  \<^verbatim>\<open>
    for i, link in enumerate(links):
        try:
            link_text = (await link.inner_text()).strip()
            if link_text.lower() == field_label.lower():
                await link.click()
                await page.wait_for_load_state('domcontentloaded', timeout=10000)
                await page.wait_for_timeout(3000)
                current_url = page.url
                field_id = await extract_field_id_from_url(current_url)
                if field_id:
                    return field_id
                return None
        except Exception as e:
            continue
  \<close>
\<close>

fun try_links ::
  "(string \<Rightarrow> string) \<Rightarrow> string \<Rightarrow> field_link list \<Rightarrow> string list \<times> string option option" where
  "try_links unquote field_label [] = ([], None)"
| "try_links unquote field_label (link # links) =
     (case inner_text link of
        Inl e \<Rightarrow> try_links unquote field_label links
      | Inr t \<Rightarrow>
          (let link_text = py_strip t in
           if py_lower link_text = py_lower field_label then
             (case click link of
                Landed current_url \<Rightarrow>
                  ([link_text], Some (extract_field_id_from_url unquote current_url))
              | _ \<Rightarrow>
                  (case try_links unquote field_label links of
                     (clicked, r) \<Rightarrow> (link_text # clicked, r)))
           else try_links unquote field_label links))"

fun try_selectors ::
  "(string \<Rightarrow> string) \<Rightarrow> string \<Rightarrow> table_view \<Rightarrow> string list \<Rightarrow> string list \<times> string option" where
  "try_selectors unquote field_label page [] = ([], None)"
| "try_selectors unquote field_label page (selector # selectors) =
     (case page selector of
        Raises e \<Rightarrow> try_selectors unquote field_label page selectors
      | Links links \<Rightarrow>
          (case try_links unquote field_label links of
             (clicked, Some r) \<Rightarrow> (clicked, r)
           | (clicked, None) \<Rightarrow>
               (case try_selectors unquote field_label page selectors of
                  (clicked', r) \<Rightarrow> (clicked @ clicked', r))))"

text \<open>
  \<open>click_field_from_table\<close> never reads \<open>field_api_name\<close>. A label that is not a string
  makes \<open>re.escape\<close> raise before any selector is tried.
\<close>

definition click_field_from_table ::
  "(string \<Rightarrow> string) \<Rightarrow> table_view \<Rightarrow> cell_value \<Rightarrow> cell_value
     \<Rightarrow> exn + (string list \<times> string option)" where
  "click_field_from_table unquote page field_label field_api_name =
     (case field_label of
        VStr l \<Rightarrow> Inr (try_selectors unquote l page (field_link_selectors l))
      | _ \<Rightarrow> Inl Error)"

subsection \<open>Quick Find\<close>

datatype attempt = ByLabel | ByApiName

text \<open>
  The browser's side of \<open>use_fields_page_quick_find\<close>: whether the box a Quick Find
  selector locates is visible (or the probe raises), whether typing the term of an attempt
  goes through, and the table the page shows after that attempt's search.
\<close>

record quick_find_env =
  box_visible :: "string \<Rightarrow> exn + bool"
  typing :: "attempt \<Rightarrow> exn + unit"
  results :: "attempt \<Rightarrow> table_view"

definition quick_find_selectors :: "string list" where
  "quick_find_selectors =
     [''input[placeholder='' @ [quote] @ ''Quick Find'' @ [quote] @ '']'',
      ''input[placeholder*='' @ [quote] @ ''Quick Find'' @ [quote] @ '']'',
      ''input[aria-label*='' @ [quote] @ ''Quick Find'' @ [quote] @ '']'',
      ''.slds-input[placeholder*='' @ [quote] @ ''Quick Find'' @ [quote] @ '']'']"

fun find_search_box :: "(string \<Rightarrow> exn + bool) \<Rightarrow> string list \<Rightarrow> string option" where
  "find_search_box visible [] = None"
| "find_search_box visible (selector # selectors) =
     (case visible selector of
        Inr True \<Rightarrow> Some selector
      | _ \<Rightarrow> find_search_box visible selectors)"

text \<open>\<open>trigger_search_with_proper_events\<close>: \<open>True\<close> unless typing raised.\<close>

definition trigger_search_with_proper_events :: "exn + unit \<Rightarrow> bool" where
  "trigger_search_with_proper_events typed = (case typed of Inl e \<Rightarrow> False | Inr u \<Rightarrow> True)"

text \<open>A click, with the attempt it happened in, the term that attempt searched for and the
  text of the link.\<close>

record click_event =
  during :: attempt
  search_term :: cell_value
  link_text :: string

definition clicks_of :: "attempt \<Rightarrow> cell_value \<Rightarrow> string list \<Rightarrow> click_event list" where
  "clicks_of a term texts = map (\<lambda>t. \<lparr>during = a, search_term = term, link_text = t\<rparr>) texts"

text \<open>
  \<^verbatim>\<open>
    if not search_box:
        return None
    try:
        if await trigger_search_with_proper_events(page, search_box, field_label):
            field_id = await click_field_from_table(page, field_label, field_api_name)
            if field_id:
                return field_id
        if await trigger_search_with_proper_events(page, search_box, field_api_name):
            field_id = await click_field_from_table(page, field_label, field_api_name)
            if field_id:
                return field_id
        return None
    except Exception as e:
        return None
  \<close>
  The result is the field identifier or \<open>None\<close>, with the clicks made on the way.
\<close>

definition second_attempt ::
  "(string \<Rightarrow> string) \<Rightarrow> quick_find_env \<Rightarrow> cell_value \<Rightarrow> cell_value
     \<Rightarrow> string option \<times> click_event list" where
  "second_attempt unquote env field_label field_api_name =
     (if trigger_search_with_proper_events (typing env ByApiName) then
        (case click_field_from_table unquote (results env ByApiName) field_label field_api_name of
           Inl e \<Rightarrow> (None, [])
         | Inr (clicked, field_id) \<Rightarrow> (field_id, clicks_of ByApiName field_api_name clicked))
      else (None, []))"

definition use_fields_page_quick_find ::
  "(string \<Rightarrow> string) \<Rightarrow> quick_find_env \<Rightarrow> cell_value \<Rightarrow> cell_value
     \<Rightarrow> string option \<times> click_event list" where
  "use_fields_page_quick_find unquote env field_label field_api_name =
     (case find_search_box (box_visible env) quick_find_selectors of
        None \<Rightarrow> (None, [])
      | Some search_box \<Rightarrow>
          if trigger_search_with_proper_events (typing env ByLabel) then
            (case click_field_from_table unquote (results env ByLabel) field_label field_api_name of
               Inl e \<Rightarrow> (None, [])
             | Inr (clicked, Some field_id) \<Rightarrow>
                 (Some field_id, clicks_of ByLabel field_label clicked)
             | Inr (clicked, None) \<Rightarrow>
                 (case second_attempt unquote env field_label field_api_name of
                    (field_id, clicks) \<Rightarrow> (field_id, clicks_of ByLabel field_label clicked @ clicks)))
          else second_attempt unquote env field_label field_api_name)"

subsection \<open>The dependencies page\<close>

definition dependencies_url :: "string \<Rightarrow> string \<Rightarrow> string \<Rightarrow> string" where
  "dependencies_url instance object_id field_id =
     ''https://'' @ instance @ ''/lightning/setup/ObjectManager/'' @ object_id
       @ ''/FieldsAndRelationships/'' @ field_id @ ''/fieldDependencies''"

text \<open>
  \<open>navigate_to_field_dependencies_page\<close>: the browser raises on the way, or reports
  whether the text \<open>Insufficient Privileges\<close> is visible on the page it reached.
\<close>

definition navigate_to_field_dependencies_page ::
  "(string \<Rightarrow> exn + bool) \<Rightarrow> string \<Rightarrow> string \<Rightarrow> string \<Rightarrow> bool" where
  "navigate_to_field_dependencies_page goto_deps instance object_id field_id =
     (case goto_deps (dependencies_url instance object_id field_id) of
        Inl e \<Rightarrow> False
      | Inr insufficient_privileges \<Rightarrow> \<not> insufficient_privileges)"

definition find_field_and_get_dependencies ::
  "(string \<Rightarrow> string) \<Rightarrow> string \<Rightarrow> quick_find_env \<Rightarrow> (string \<Rightarrow> exn + bool)
     \<Rightarrow> cell_value \<Rightarrow> cell_value \<Rightarrow> string \<Rightarrow> bool \<times> click_event list" where
  "find_field_and_get_dependencies unquote instance env goto_deps field_label field_api_name object_id =
     (case use_fields_page_quick_find unquote env field_label field_api_name of
        (Some field_id, clicks) \<Rightarrow>
          (navigate_to_field_dependencies_page goto_deps instance object_id field_id, clicks)
      | (None, clicks) \<Rightarrow> (False, clicks))"

subsection \<open>A browser session for the concrete instances\<close>

text \<open>
  The field \<open>My Field\<close> with the API name \<open>My_Field__c\<close>. Searching for the label filters
  the table to nothing; searching for the API name shows the field's row, whose link
  carries the label.
\<close>

definition my_field_link :: field_link where
  "my_field_link =
     \<lparr>inner_text = Inr '' My Field '',
      click = Landed ''https://x.my.salesforce.com/lightning/setup/ObjectManager/01I5e000000abcdEAA/FieldsAndRelationships/00N5e00000abcde/view''\<rparr>"

definition env_found_by_api_name :: quick_find_env where
  "env_found_by_api_name =
     \<lparr>box_visible = (\<lambda>selector. Inr True),
      typing = (\<lambda>a. Inr ()),
      results = (\<lambda>a selector.
         case a of
           ByLabel \<Rightarrow> Raises PWTimeout
         | ByApiName \<Rightarrow>
             if selector = hd (field_link_selectors ''My Field'') then Links [my_field_link]
             else Raises PWTimeout)\<rparr>"

definition env_found_by_label :: quick_find_env where
  "env_found_by_label =
     \<lparr>box_visible = (\<lambda>selector. Inr True),
      typing = (\<lambda>a. Inr ()),
      results = (\<lambda>a selector.
         if selector = hd (field_link_selectors ''My Field'') then Links [my_field_link]
         else Raises PWTimeout)\<rparr>"

section \<open>The run\<close>

subsection \<open>Parsing a dependencies page\<close>

text \<open>
  The browser's side of \<open>parse_field_dependencies_page\<close>. A data row gives the texts of its
  cells (locating the cells raises, or reading one cell's text raises) and, to
  \<open>extract_reference_link\<close>, which locates the cells again, its anchors. The table of the
  frame is not visible, or has data rows, or raises while it is looked at. The page has a
  URL, the wait for it to settle may raise, and the search for the frame with the
  dependencies raises (outside its timeout handler), finds none, or finds one.
\<close>

record data_row =
  texts :: "exn + (exn + string) list"
  link_cells :: row_dom

datatype table_dom = TableRaises exn | TableHidden | TableRows "data_row list"

record deps_page =
  page_url :: string
  settle :: "exn + unit"
  frame :: "exn + table_dom option"

text \<open>
  The body of the loop over the data rows: the triple it appends, or \<open>None\<close> when it
  appends nothing, be it for a short row, an empty text, or an exception it catches.
  \<^verbatim>\<open>
    try:
        cells = await row.locator(".dataCell").all()
        if len(cells) >= 2:
            ref_type = (await cells[0].inner_text()).strip()
            ref_name = (await cells[1].inner_text()).strip()
            if ref_type and ref_name:
                link_href = await extract_reference_link(row, 1)
                all_refs.append((ref_type, ref_name, link_href))
    except Exception as e:
        continue
  \<close>
\<close>

definition read_row :: "(string \<Rightarrow> string) \<Rightarrow> string \<Rightarrow> data_row \<Rightarrow> reference option" where
  "read_row unquote instance row =
     (case texts row of
        Inl e \<Rightarrow> None
      | Inr cells \<Rightarrow>
          if 2 \<le> length cells then
            (case (cells ! 0, cells ! 1) of
               (Inr t0, Inr t1) \<Rightarrow>
                 (let rt = py_strip t0; rn = py_strip t1 in
                  if rt \<noteq> [] \<and> rn \<noteq> [] then
                    (case extract_reference_link unquote instance (link_cells row) 1 of
                       Inr link_href \<Rightarrow> Some (rt, rn, link_href)
                     | Inl e \<Rightarrow> None)
                  else None)
             | _ \<Rightarrow> None)
          else None)"

fun read_rows :: "(string \<Rightarrow> string) \<Rightarrow> string \<Rightarrow> data_row list \<Rightarrow> reference list" where
  "read_rows unquote instance [] = []"
| "read_rows unquote instance (row # data_rows) =
     (case read_row unquote instance row of
        Some ref \<Rightarrow> ref # read_rows unquote instance data_rows
      | None \<Rightarrow> read_rows unquote instance data_rows)"

text \<open>
  The outer \<open>try\<close> around the table: an exception there leaves \<open>all_refs\<close> empty, since
  it can only come before the loop.
\<close>

definition read_table :: "(string \<Rightarrow> string) \<Rightarrow> string \<Rightarrow> table_dom \<Rightarrow> reference list" where
  "read_table unquote instance table =
     (case table of
        TableRaises e \<Rightarrow> []
      | TableHidden \<Rightarrow> []
      | TableRows data_rows \<Rightarrow> read_rows unquote instance data_rows)"

text \<open>
  \<^verbatim>\<open>
    field_url = page.url
    await page.wait_for_timeout(4000)
    target_frame = await find_dependencies_iframe(page)
    if not target_frame:
        return field_url, []
    all_refs = []
    (the table is read)
    (the references are filtered)
    return field_url, filtered_refs
  \<close>
\<close>

definition parse_field_dependencies_page ::
  "(string \<Rightarrow> string) \<Rightarrow> string \<Rightarrow> deps_page \<Rightarrow> exn + (string \<times> reference list)" where
  "parse_field_dependencies_page unquote instance dp =
     (let field_url = page_url dp in
      case settle dp of
        Inl e \<Rightarrow> Inl e
      | Inr u \<Rightarrow>
          (case frame dp of
             Inl e \<Rightarrow> Inl e
           | Inr None \<Rightarrow> Inr (field_url, [])
           | Inr (Some table) \<Rightarrow> Inr (field_url, filter_refs (read_table unquote instance table))))"

subsection \<open>One work item\<close>

text \<open>
  The browser's side of one iteration of the loop of \<open>main\<close>: the search for the field,
  the navigation to its dependencies, the parse, the navigation back to the field list
  (\<open>back_nav\<close>, in the branch taken) and the navigation of the exception handler
  (\<open>recover_nav\<close>).
\<close>

record field_env =
  quick_find :: quick_find_env
  goto_deps :: "string \<Rightarrow> exn + bool"
  parse :: deps_page
  back_nav :: "exn + unit"
  recover_nav :: "exn + unit"

datatype flow = Continue | Break

text \<open>
  \<^verbatim>\<open>
    current_row = field["original_row"] + rows_inserted
    try:
        if await find_field_and_get_dependencies(page, field_label, field_api_name, object_id):
            field_url, refs = await parse_field_dependencies_page(page)
            await page.goto(fields_list_url, wait_until="domcontentloaded")
            await page.wait_for_timeout(3000)
            (the merge writer's block)
        else:
            await page.goto(fields_list_url, wait_until="domcontentloaded")
            await page.wait_for_timeout(3000)
    except Exception as e:
        try:
            await page.goto(fields_list_url, wait_until="domcontentloaded")
            await page.wait_for_timeout(3000)
        except Exception as nav_e:
            break
        continue
  \<close>
  The result is the worksheet, the new value of \<open>rows_inserted\<close>, the number this
  iteration added to it, and whether the loop goes on. The merge writer's block stands
  inside the \<open>try\<close>: when one of its writes raises, the handler runs with the worksheet
  as the block left it and with \<open>rows_inserted\<close> as it was.
\<close>

definition recover :: "field_env \<Rightarrow> flow" where
  "recover env = (case recover_nav env of Inl nav_e \<Rightarrow> Break | Inr u \<Rightarrow> Continue)"

definition process_field ::
  "(string \<Rightarrow> string) \<Rightarrow> string \<Rightarrow> string \<Rightarrow> sheet \<Rightarrow> nat \<Rightarrow> work_item \<Rightarrow> field_env
     \<Rightarrow> sheet \<times> nat \<times> nat \<times> flow" where
  "process_field unquote instance object_id ws rows_inserted field env =
     (let current_row = original_row field + rows_inserted in
      if fst (find_field_and_get_dependencies unquote instance (quick_find env) (goto_deps env)
                (label field) (api_name field) object_id)
      then
        (case parse_field_dependencies_page unquote instance (parse env) of
           Inl e \<Rightarrow> (ws, rows_inserted, 0, recover env)
         | Inr (field_url, refs) \<Rightarrow>
             (case back_nav env of
                Inl e \<Rightarrow> (ws, rows_inserted, 0, recover env)
              | Inr u \<Rightarrow>
                  (case merge_write ws current_row field_url refs of
                     (ws', Inl e) \<Rightarrow> (ws', rows_inserted, 0, recover env)
                   | (ws', Inr n) \<Rightarrow> (ws', rows_inserted + n, n, Continue))))
      else
        (case back_nav env of
           Inl e \<Rightarrow> (ws, rows_inserted, 0, recover env)
         | Inr u \<Rightarrow> (ws, rows_inserted, 0, Continue)))"

text \<open>
  The loop over the work list, each item with the browser's side of its iteration. It
  returns the worksheet, \<open>rows_inserted\<close>, and the numbers the iterations it ran added.
\<close>

fun process_fields ::
  "(string \<Rightarrow> string) \<Rightarrow> string \<Rightarrow> string \<Rightarrow> sheet \<Rightarrow> nat \<Rightarrow> (work_item \<times> field_env) list
     \<Rightarrow> sheet \<times> nat \<times> nat list" where
  "process_fields unquote instance object_id ws rows_inserted [] = (ws, rows_inserted, [])"
| "process_fields unquote instance object_id ws rows_inserted ((field, env) # rest) =
     (case process_field unquote instance object_id ws rows_inserted field env of
        (ws', rows_inserted', n, Continue) \<Rightarrow>
          (case process_fields unquote instance object_id ws' rows_inserted' rest of
             (ws'', rows_inserted'', counts) \<Rightarrow> (ws'', rows_inserted'', n # counts))
      | (ws', rows_inserted', n, Break) \<Rightarrow> (ws', rows_inserted', [n]))"

subsection \<open>The three outcomes of a work item\<close>

text \<open>
  Stated on the worksheet and \<open>RowOffset\<close> before and after, for a work item whose source
  row is \<open>source_row\<close>: references were written from \<open>source_row + RowOffset + 1\<close> on and
  \<open>RowOffset\<close> grew by their number; one marker row was written there and \<open>RowOffset\<close>
  grew by one; nothing changed.
\<close>

definition refs_written :: "sheet \<Rightarrow> nat \<Rightarrow> nat \<Rightarrow> sheet \<Rightarrow> nat \<Rightarrow> bool" where
  "refs_written ws offset source_row ws' offset' \<longleftrightarrow>
     (\<exists>field_url refs. refs \<noteq> []
        \<and> offset' = offset + length refs
        \<and> rows_inserted_at ws ws' (source_row + offset) (length refs) field_url
        \<and> (\<forall>j c. j < length refs \<longrightarrow>
              ws' (source_row + offset + 1 + j) c = reference_row (refs ! j) c))"

definition marker_written :: "sheet \<Rightarrow> nat \<Rightarrow> nat \<Rightarrow> sheet \<Rightarrow> nat \<Rightarrow> bool" where
  "marker_written ws offset source_row ws' offset' \<longleftrightarrow>
     (\<exists>field_url. offset' = offset + 1
        \<and> rows_inserted_at ws ws' (source_row + offset) 1 field_url
        \<and> (\<forall>c. ws' (source_row + offset + 1) c = marker_row c))"

definition field_skipped :: "sheet \<Rightarrow> nat \<Rightarrow> sheet \<Rightarrow> nat \<Rightarrow> bool" where
  "field_skipped ws offset ws' offset' \<longleftrightarrow> ws' = ws \<and> offset' = offset"

text \<open>
  What the code has besides: a write of the merge writer's block raised, the worksheet
  is as the block left it and \<open>RowOffset\<close> is what it was.
\<close>

definition write_interrupted :: "sheet \<Rightarrow> nat \<Rightarrow> nat \<Rightarrow> sheet \<Rightarrow> nat \<Rightarrow> bool" where
  "write_interrupted ws offset source_row ws' offset' \<longleftrightarrow>
     (\<exists>field_url refs e. merge_write ws (source_row + offset) field_url refs = (ws', Inl e))
     \<and> offset' = offset"

definition exactly_one :: "bool \<Rightarrow> bool \<Rightarrow> bool \<Rightarrow> bool" where
  "exactly_one a b c \<longleftrightarrow> (a \<and> \<not> b \<and> \<not> c) \<or> (\<not> a \<and> b \<and> \<not> c) \<or> (\<not> a \<and> \<not> b \<and> c)"

subsection \<open>The program\<close>

record cli_args =
  arg_start_at_label :: "string option"
  arg_limit :: "int option"
  arg_object_id :: "string option"
  arg_instance :: string

text \<open>
  What the machine and the browser answer to a run. Loading the workbook raises or gives
  the sheet with its \<open>max_row\<close>. Entering \<open>async_playwright()\<close> may raise, outside the
  \<open>try\<close>. The statements from the launch to the first navigation raise in the launch
  (then \<open>browser\<close> is not bound), raise later, or leave the page on a URL. Closing the
  browser in the \<open>finally\<close> block may raise, leaving the \<open>async with\<close> block may raise,
  and so may saving.
\<close>

datatype browser_start = LaunchRaises exn | SetupRaises exn | Started string

record run_env =
  file_exists :: bool
  load_workbook :: "exn + (sheet \<times> nat)"
  playwright :: "exn + unit"
  start_browser :: browser_start
  field_envs :: "nat \<Rightarrow> field_env"
  close_browser :: "exn + unit"
  stop_playwright :: "exn + unit"
  save_workbook :: "exn + unit"

text \<open>What a run does that can be seen from outside, in order.\<close>

datatype event =
    SysExit
  | ExcelError
  | StartLabelNotFound
  | NothingToProcess
  | ObjectIdMissing
  | CriticalBrowserError
  | FieldsProcessed "nat list"
  | BrowserClosed
  | Uncaught exn
  | SaveAttempt bool

text \<open>
  The start row and the work list, up to the test \<open>if not fields_to_process\<close>:
  an uncaught exception, \<open>None\<close> where \<open>main\<close> returns for a start label it did not
  find, or the work list.
\<close>

definition work_list :: "cli_args \<Rightarrow> sheet \<Rightarrow> nat \<Rightarrow> exn + work_item list option" where
  "work_list args ws max_row =
     (case arg_start_at_label args of
        None \<Rightarrow> Inr (Some (prescan ws max_row 2 (arg_limit args)))
      | Some start_at_label \<Rightarrow>
          if start_at_label = [] then Inr (Some (prescan ws max_row 2 (arg_limit args)))
          else
            (case find_start_row ws start_at_label [2 ..< max_row + 1] of
               Inl e \<Rightarrow> Inl e
             | Inr None \<Rightarrow> Inr None
             | Inr (Some start_row) \<Rightarrow> Inr (Some (prescan ws max_row start_row (arg_limit args)))))"

text \<open>
  \<^verbatim>\<open>
    object_id = None
    if args.object_id:
        object_id = args.object_id
    else:
        canonical_url = page.url
        object_id = await extract_object_id_from_url(canonical_url)
    if not object_id:
        return
  \<close>
  \<open>None\<close> is the case in which \<open>main\<close> returns.
\<close>

definition resolve_object_id :: "cli_args \<Rightarrow> string \<Rightarrow> string option" where
  "resolve_object_id args canonical_url =
     (let object_id =
            (case arg_object_id args of
               None \<Rightarrow> extract_object_id_from_url canonical_url
             | Some given \<Rightarrow>
                 if given \<noteq> [] then Some given else extract_object_id_from_url canonical_url)
      in case object_id of
           None \<Rightarrow> None
         | Some oid \<Rightarrow> if oid = [] then None else Some oid)"

text \<open>
  Leaving the \<open>async with\<close> block, and in front of it the \<open>finally\<close> block when
  \<open>browser\<close> is bound; \<open>after\<close> is what follows the block unless \<open>main\<close> returned inside.
\<close>

definition leave_playwright :: "run_env \<Rightarrow> event list \<Rightarrow> event list" where
  "leave_playwright env after =
     (case stop_playwright env of
        Inl e \<Rightarrow> [Uncaught e]
      | Inr u \<Rightarrow> after)"

definition close_then :: "run_env \<Rightarrow> event list \<Rightarrow> event list" where
  "close_then env after =
     (case close_browser env of
        Inl e \<Rightarrow> [Uncaught e]
      | Inr u \<Rightarrow> BrowserClosed # leave_playwright env after)"

definition save_step :: "run_env \<Rightarrow> event list" where
  "save_step env = (case save_workbook env of Inl e \<Rightarrow> [SaveAttempt False] | Inr u \<Rightarrow> [SaveAttempt True])"

definition with_field_envs :: "(nat \<Rightarrow> field_env) \<Rightarrow> work_item list \<Rightarrow> (work_item \<times> field_env) list" where
  "with_field_envs envs items = map (\<lambda>i. (items ! i, envs i)) [0 ..< length items]"

text \<open>\<open>main\<close>: the events of the run and the worksheet in memory at its end.\<close>

definition browser_session ::
  "(string \<Rightarrow> string) \<Rightarrow> cli_args \<Rightarrow> run_env \<Rightarrow> sheet \<Rightarrow> work_item list \<Rightarrow> event list \<times> sheet" where
  "browser_session unquote args env ws fields_to_process =
     (case start_browser env of
        LaunchRaises e \<Rightarrow> (CriticalBrowserError # leave_playwright env (save_step env), ws)
      | SetupRaises e \<Rightarrow> (CriticalBrowserError # close_then env (save_step env), ws)
      | Started canonical_url \<Rightarrow>
          (case resolve_object_id args canonical_url of
             None \<Rightarrow> (ObjectIdMissing # close_then env [], ws)
           | Some object_id \<Rightarrow>
               (case process_fields unquote (arg_instance args) object_id ws 0
                       (with_field_envs (field_envs env) fields_to_process) of
                  (ws', rows_inserted, counts) \<Rightarrow>
                    (FieldsProcessed counts # close_then env (save_step env), ws'))))"

definition main :: "(string \<Rightarrow> string) \<Rightarrow> cli_args \<Rightarrow> run_env \<Rightarrow> event list \<times> sheet option" where
  "main unquote args env =
     (if \<not> file_exists env then ([SysExit], None)
      else
        (case load_workbook env of
           Inl e \<Rightarrow> ([ExcelError], None)
         | Inr (ws, max_row) \<Rightarrow>
             (case work_list args ws max_row of
                Inl e \<Rightarrow> ([Uncaught e], Some ws)
              | Inr None \<Rightarrow> ([StartLabelNotFound], Some ws)
              | Inr (Some fields_to_process) \<Rightarrow>
                  if fields_to_process = [] then ([NothingToProcess], Some ws)
                  else
                    (case playwright env of
                       Inl e \<Rightarrow> ([Uncaught e], Some ws)
                     | Inr u \<Rightarrow>
                         (case browser_session unquote args env ws fields_to_process of
                            (events, ws') \<Rightarrow> (events, Some ws'))))))"

subsection \<open>Vocabulary of the specification\<close>

text \<open>Shutting the browser session down raises nothing.\<close>

definition clean_shutdown :: "run_env \<Rightarrow> bool" where
  "clean_shutdown env \<longleftrightarrow> close_browser env = Inr () \<and> stop_playwright env = Inr ()"

definition is_save :: "event \<Rightarrow> bool" where
  "is_save ev = (case ev of SaveAttempt ok \<Rightarrow> True | _ \<Rightarrow> False)"

definition save_attempts :: "event list \<Rightarrow> nat" where
  "save_attempts events = length (filter is_save events)"

text \<open>The run saves once, and that is the last thing it does.\<close>

definition saved_once_at_end :: "event list \<Rightarrow> bool" where
  "saved_once_at_end events \<longleftrightarrow>
     save_attempts events = 1 \<and> events \<noteq> [] \<and> is_save (last events)"

text \<open>
  The document was loaded and the run reached the point where the object identifier is
  resolved, with the identifier \<open>oid\<close> as the result.
\<close>

definition loaded_and_resolved :: "cli_args \<Rightarrow> run_env \<Rightarrow> string \<Rightarrow> bool" where
  "loaded_and_resolved args env oid \<longleftrightarrow>
     file_exists env \<and>
     (case load_workbook env of
        Inl e \<Rightarrow> False
      | Inr (ws, max_row) \<Rightarrow>
          (case work_list args ws max_row of
             Inr (Some items) \<Rightarrow>
               items \<noteq> [] \<and> playwright env = Inr ()
               \<and> (case start_browser env of
                     Started canonical_url \<Rightarrow> resolve_object_id args canonical_url = Some oid
                   | _ \<Rightarrow> False)
           | _ \<Rightarrow> False))"

text \<open>
  The run ends before a browser session exists: the file is missing, the sheet cannot be
  read, the start label is not found (or the search for it fails), the work list is empty,
  or Playwright does not start.
\<close>

definition ends_before_browser :: "cli_args \<Rightarrow> run_env \<Rightarrow> bool" where
  "ends_before_browser args env \<longleftrightarrow>
     \<not> file_exists env \<or>
     (case load_workbook env of
        Inl e \<Rightarrow> True
      | Inr (ws, max_row) \<Rightarrow>
          (case work_list args ws max_row of
             Inr (Some items) \<Rightarrow> items = [] \<or> playwright env \<noteq> Inr ()
           | _ \<Rightarrow> True))"

definition object_id_unresolved :: "cli_args \<Rightarrow> run_env \<Rightarrow> bool" where
  "object_id_unresolved args env \<longleftrightarrow>
     \<not> ends_before_browser args env \<and>
     (case start_browser env of
        Started canonical_url \<Rightarrow> resolve_object_id args canonical_url = None
      | _ \<Rightarrow> False)"

subsection \<open>Runs for the concrete instances\<close>

text \<open>
  A sheet with three fields in rows 2 to 4. The browser finds the first two and not the
  third; the first has the references of scenario A and the second those of scenario B.
\<close>

definition sheet_three_fields :: sheet where
  "sheet_three_fields =
     (\<lambda>r c. if 2 \<le> r \<and> r \<le> 4 \<and> c = 1 then \<lparr>val = VStr ''My Field'', hyperlink = None\<rparr>
            else if 2 \<le> r \<and> r \<le> 4 \<and> c = 2 then \<lparr>val = VStr ''My_Field__c'', hyperlink = None\<rparr>
            else empty_cell)"

definition text_row :: "string \<Rightarrow> string \<Rightarrow> string \<Rightarrow> data_row" where
  "text_row rt rn href =
     \<lparr>texts = Inr [Inr rt, Inr rn],
      link_cells = Inr [Inr [], Inr (if href = [] then [] else [Inr (Some href)])]\<rparr>"

definition page_scenario_A :: deps_page where
  "page_scenario_A =
     \<lparr>page_url = field_url_0, settle = Inr (),
      frame = Inr (Some (TableRows
        [text_row ''Layout'' ''Page Layout 1 '' '''',
         text_row ''Flow'' ''Flow X'' ''/url1'',
         \<lparr>texts = Inl Error, link_cells = Inl Error\<rparr>,
         text_row ''Flow'' ''Flow X'' ''/url2'']))\<rparr>"

definition page_scenario_B :: deps_page where
  "page_scenario_B =
     \<lparr>page_url = field_url_0, settle = Inr (),
      frame = Inr (Some (TableRows [text_row ''ReportType'' ''RT1'' '''']))\<rparr>"

definition page_no_frame :: deps_page where
  "page_no_frame = \<lparr>page_url = field_url_0, settle = Inr (), frame = Inr None\<rparr>"

definition page_raises :: deps_page where
  "page_raises = \<lparr>page_url = field_url_0, settle = Inl Error, frame = Inr None\<rparr>"

definition env_no_box :: quick_find_env where
  "env_no_box =
     \<lparr>box_visible = (\<lambda>selector. Inr False),
      typing = (\<lambda>a. Inr ()),
      results = (\<lambda>a selector. Raises PWTimeout)\<rparr>"

definition field_env_A :: field_env where
  "field_env_A =
     \<lparr>quick_find = env_found_by_label, goto_deps = (\<lambda>url. Inr False),
      parse = page_scenario_A, back_nav = Inr (), recover_nav = Inr ()\<rparr>"

definition field_env_B :: field_env where
  "field_env_B =
     \<lparr>quick_find = env_found_by_api_name, goto_deps = (\<lambda>url. Inr False),
      parse = page_scenario_B, back_nav = Inr (), recover_nav = Inr ()\<rparr>"

definition field_env_not_found :: field_env where
  "field_env_not_found =
     \<lparr>quick_find = env_no_box, goto_deps = (\<lambda>url. Inr False),
      parse = page_no_frame, back_nav = Inr (), recover_nav = Inr ()\<rparr>"

text \<open>The parse raises and the navigation of the handler raises too: the loop stops.\<close>

definition field_env_fatal :: field_env where
  "field_env_fatal =
     \<lparr>quick_find = env_found_by_label, goto_deps = (\<lambda>url. Inr False),
      parse = page_raises, back_nav = Inr (), recover_nav = Inl Error\<rparr>"

definition three_field_envs :: "nat \<Rightarrow> field_env" where
  "three_field_envs i =
     (if i = 0 then field_env_A else if i = 1 then field_env_B else field_env_not_found)"

definition args_plain :: cli_args where
  "args_plain =
     \<lparr>arg_start_at_label = None, arg_limit = None, arg_object_id = None,
      arg_instance = ''x.my.salesforce.com''\<rparr>"

definition args_given_id :: cli_args where
  "args_given_id = args_plain\<lparr>arg_object_id := Some ''01I5e000000abcdEAA''\<rparr>"

definition env_three_fields :: run_env where
  "env_three_fields =
     \<lparr>file_exists = True, load_workbook = Inr (sheet_three_fields, 4), playwright = Inr (),
      start_browser = Started url_custom_object, field_envs = three_field_envs,
      close_browser = Inr (), stop_playwright = Inr (), save_workbook = Inr ()\<rparr>"

definition env_halts :: run_env where
  "env_halts = env_three_fields\<lparr>field_envs := (\<lambda>i. field_env_fatal)\<rparr>"

definition env_standard_object :: run_env where
  "env_standard_object = env_three_fields\<lparr>start_browser := Started url_standard_object\<rparr>"

text \<open>The sheet a first run left for one field without references, loaded again.\<close>

definition sheet_processed :: sheet where
  "sheet_processed = fst (merge_write sheet_one_field 2 field_url_0 [])"

definition env_all_processed :: run_env where
  "env_all_processed = env_three_fields\<lparr>load_workbook := Inr (sheet_processed, 3)\<rparr>"

definition env_close_raises :: run_env where
  "env_close_raises = env_three_fields\<lparr>close_browser := Inl Error\<rparr>"

definition three_items :: "(work_item \<times> field_env) list" where
  "three_items =
     with_field_envs three_field_envs (prescan sheet_three_fields 4 2 None)"

definition item_row2 :: work_item where
  "item_row2 = \<lparr>api_name = VStr ''My_Field__c'', label = VStr ''My Field'', original_row = 2\<rparr>"

definition object_id_0 :: string where
  "object_id_0 = ''01I5e000000abcdEAA''"

text \<open>
  A dependencies page with two references, the second with the control character U+0001
  in its name, and the sheet with three fields, the number of each field's row in its
  column 3.
\<close>

definition bad_name :: string where
  "bad_name = ''Bad'' @ [CHR 0x01] @ ''Name''"

definition refs_control_char :: "reference list" where
  "refs_control_char = [(''Layout'', ''Page Layout 1'', ''''), (''ApexClass'', bad_name, '''')]"

definition page_control_char :: deps_page where
  "page_control_char =
     \<lparr>page_url = field_url_0, settle = Inr (),
      frame = Inr (Some (TableRows
        [text_row ''Layout'' ''Page Layout 1'' '''',
         text_row ''ApexClass'' bad_name '''']))\<rparr>"

definition field_env_control_char :: field_env where
  "field_env_control_char =
     \<lparr>quick_find = env_found_by_label, goto_deps = (\<lambda>url. Inr False),
      parse = page_control_char, back_nav = Inr (), recover_nav = Inr ()\<rparr>"

definition sheet_three_tagged :: sheet where
  "sheet_three_tagged =
     (\<lambda>r c. if 2 \<le> r \<and> r \<le> 4 \<and> c = 3 then \<lparr>val = VNum (int r), hyperlink = None\<rparr>
            else sheet_three_fields r c)"

definition item_row3 :: work_item where
  "item_row3 = \<lparr>api_name = VStr ''My_Field__c'', label = VStr ''My Field'', original_row = 3\<rparr>"

definition control_char_items :: "(work_item \<times> field_env) list" where
  "control_char_items = [(item_row2, field_env_control_char), (item_row3, field_env_B)]"

section \<open>Properties of the reference filter\<close>

lemma dict_keys_dict_set:
  "dict_keys (dict_set d k v) = (if k \<in> set (dict_keys d) then dict_keys d else dict_keys d @ [k])"
  by (induction d) (force simp: dict_keys_def)+

lemma map_of_dict_set: "map_of (dict_set d k v) = (map_of d)(k \<mapsto> v)"
  by (induction d) (auto simp: fun_eq_iff)

lemma dict_set_fresh: "k \<notin> set (dict_keys d) \<Longrightarrow> dict_set d k v = d @ [(k, v)]"
  by (induction d) (auto simp: dict_keys_def)

lemma distinct_dict_set:
  "distinct (dict_keys d) \<Longrightarrow> distinct (dict_keys (dict_set d k v))"
  by (simp add: dict_keys_dict_set)

lemma filter_loop_fst:
  "fst (filter_loop refs f d) = f @ filter is_plain refs"
  by (induction refs f d rule: filter_loop.induct)
     (auto simp: is_plain_def ref_type_def)

lemma filter_loop_keys:
  "dict_keys (snd (filter_loop refs f d)) =
     dict_keys d @ first_occurrences (dict_keys d) (map ref_name (filter is_flow refs))"
  by (induction refs f d rule: filter_loop.induct)
     (auto simp: is_flow_def ref_type_def ref_name_def dict_keys_dict_set)

lemma filter_loop_distinct:
  "distinct (dict_keys d) \<Longrightarrow> distinct (dict_keys (snd (filter_loop refs f d)))"
  by (induction refs f d rule: filter_loop.induct)
     (auto simp: distinct_dict_set)

lemma filter_loop_map_of:
  "map_of (snd (filter_loop refs f d)) n =
     (if flows_named n refs = [] then map_of d n else Some (last (flows_named n refs)))"
  by (induction refs f d rule: filter_loop.induct)
     (auto simp: flows_named_def is_flow_def ref_type_def ref_name_def map_of_dict_set)

lemma set_first_occurrences: "set (first_occurrences seen xs) = set xs - set seen"
  by (induction seen xs rule: first_occurrences.induct) auto

lemma distinct_first_occurrences: "distinct (first_occurrences seen xs)"
  by (induction seen xs rule: first_occurrences.induct) (auto simp: set_first_occurrences)

text \<open>A dictionary with distinct keys is its key list mapped through the lookup.\<close>

lemma distinct_dict_values:
  "distinct (dict_keys d) \<Longrightarrow> dict_values d = map (\<lambda>k. the (map_of d k)) (dict_keys d)"
proof (induction d)
  case Nil
  then show ?case by (simp add: dict_keys_def dict_values_def)
next
  case (Cons p d)
  obtain k v where p: "p = (k, v)" by (cases p)
  from Cons.prems have fresh: "k \<notin> set (dict_keys d)" and dist: "distinct (dict_keys d)"
    by (simp_all add: p dict_keys_def)
  have "map (\<lambda>k'. the (map_of (p # d) k')) (dict_keys d) = map (\<lambda>k'. the (map_of d k')) (dict_keys d)"
    using fresh by (intro map_cong [OF refl]) (auto simp: p)
  with Cons.IH [OF dist] show ?case
    by (simp add: p dict_keys_def dict_values_def)
qed

lemma flows_named_nonempty:
  "n \<in> set (map ref_name (filter is_flow refs)) \<Longrightarrow> flows_named n refs \<noteq> []"
  by (auto simp: flows_named_def filter_empty_conv)

lemma filter_refs_split:
  "filter_refs refs = filter is_plain refs @ dict_values (snd (filter_loop refs [] []))"
  using filter_loop_fst [of refs "[]" "[]"]
  by (cases "filter_loop refs [] []") (simp add: filter_refs_def)

lemma flow_survivors_eq:
  "flow_survivors refs = dict_values (snd (filter_loop refs [] []))"
  by (simp add: flow_survivors_def filter_refs_split)

lemma flow_survivors_char:
  "flow_survivors refs =
     map (\<lambda>n. last (flows_named n refs))
       (first_occurrences [] (map ref_name (filter is_flow refs)))"
proof -
  let ?d = "snd (filter_loop refs [] [])"
  let ?ks = "first_occurrences [] (map ref_name (filter is_flow refs))"
  have keys: "dict_keys ?d = ?ks"
    using filter_loop_keys [of refs "[]" "[]"] by (simp add: dict_keys_def)
  have dist: "distinct (dict_keys ?d)"
    by (rule filter_loop_distinct) (simp add: dict_keys_def)
  have "dict_values ?d = map (\<lambda>k. the (map_of ?d k)) ?ks"
    using distinct_dict_values [OF dist] keys by simp
  also have "\<dots> = map (\<lambda>n. last (flows_named n refs)) ?ks"
  proof (rule map_cong [OF refl])
    fix n assume "n \<in> set ?ks"
    then have "n \<in> set (map ref_name (filter is_flow refs))"
      by (simp add: set_first_occurrences)
    then have "flows_named n refs \<noteq> []" by (rule flows_named_nonempty)
    then show "the (map_of ?d n) = last (flows_named n refs)"
      by (simp add: filter_loop_map_of)
  qed
  finally show ?thesis by (simp add: flow_survivors_eq)
qed

lemma last_flows_named:
  "flows_named n refs \<noteq> [] \<Longrightarrow>
     is_flow (last (flows_named n refs)) \<and> ref_name (last (flows_named n refs)) = n
     \<and> last (flows_named n refs) \<in> set refs"
proof -
  assume ne: "flows_named n refs \<noteq> []"
  then have "last (flows_named n refs) \<in> set (flows_named n refs)" by (rule last_in_set)
  then show ?thesis by (simp add: flows_named_def)
qed

lemma survivors_names:
  "map ref_name (flow_survivors refs) = first_occurrences [] (map ref_name (filter is_flow refs))"
proof -
  let ?ks = "first_occurrences [] (map ref_name (filter is_flow refs))"
  have "map ref_name (map (\<lambda>n. last (flows_named n refs)) ?ks) = map (\<lambda>n. n) ?ks"
    unfolding map_map
  proof (rule map_cong [OF refl])
    fix n assume "n \<in> set ?ks"
    then have "n \<in> set (map ref_name (filter is_flow refs))"
      by (simp add: set_first_occurrences)
    then have "flows_named n refs \<noteq> []" by (rule flows_named_nonempty)
    then show "(ref_name \<circ> (\<lambda>n. last (flows_named n refs))) n = n"
      using last_flows_named by simp
  qed
  then show ?thesis by (simp add: flow_survivors_char)
qed

lemma survivor_is_last:
  assumes "r \<in> set (flow_survivors refs)"
  shows "is_flow r \<and> r \<in> set refs \<and> r = last (flows_named (ref_name r) refs)"
proof -
  from assms obtain n where n: "n \<in> set (map ref_name (filter is_flow refs))"
    and r: "r = last (flows_named n refs)"
    by (auto simp: flow_survivors_char set_first_occurrences)
  from n have ne: "flows_named n refs \<noteq> []" by (rule flows_named_nonempty)
  from last_flows_named [OF ne] r show ?thesis by simp
qed

text \<open>
  Claim C2. For every input sequence the output of the filter is: the triples whose type is
  neither \<open>ReportType\<close> nor \<open>Flow\<close>, in input order, followed by the surviving flows.
  The surviving flows have pairwise distinct names, their names are exactly the names of
  the \<open>Flow\<close>-typed inputs, and each survivor is the last \<open>Flow\<close> input carrying its name.
  No triple of type \<open>ReportType\<close> is in the output.
\<close>

theorem filter_refs_spec:
  "filter_refs refs = filter is_plain refs @ flow_survivors refs
   \<and> distinct (map ref_name (flow_survivors refs))
   \<and> set (map ref_name (flow_survivors refs)) = ref_name ` {r \<in> set refs. is_flow r}
   \<and> (\<forall>r \<in> set (flow_survivors refs). is_flow r \<and> r = last (flows_named (ref_name r) refs))
   \<and> (\<forall>r \<in> set (filter_refs refs). ref_type r \<noteq> ''ReportType'')"
proof (intro conjI)
  show split: "filter_refs refs = filter is_plain refs @ flow_survivors refs"
    by (simp add: flow_survivors_eq filter_refs_split)
  show "distinct (map ref_name (flow_survivors refs))"
    by (simp add: survivors_names distinct_first_occurrences)
  show "set (map ref_name (flow_survivors refs)) = ref_name ` {r \<in> set refs. is_flow r}"
    by (auto simp: survivors_names set_first_occurrences)
  show fl: "\<forall>r \<in> set (flow_survivors refs). is_flow r \<and> r = last (flows_named (ref_name r) refs)"
    using survivor_is_last by blast
  show "\<forall>r \<in> set (filter_refs refs). ref_type r \<noteq> ''ReportType''"
  proof
    fix r assume "r \<in> set (filter_refs refs)"
    with split have "r \<in> set (filter is_plain refs) \<or> r \<in> set (flow_survivors refs)" by auto
    then show "ref_type r \<noteq> ''ReportType''"
      using fl by (auto simp: is_plain_def is_flow_def)
  qed
qed

lemma first_occurrences_id:
  "distinct xs \<Longrightarrow> set xs \<inter> set seen = {} \<Longrightarrow> first_occurrences seen xs = xs"
  by (induction seen xs rule: first_occurrences.induct) auto

lemma filter_unique_key:
  "distinct (map f xs) \<Longrightarrow> x \<in> set xs \<Longrightarrow> filter (\<lambda>y. f y = f x) xs = [x]"
proof (induction xs)
  case Nil
  then show ?case by simp
next
  case (Cons a xs)
  show ?case
  proof (cases "a = x")
    case True
    from Cons.prems True have "f x \<notin> f ` set xs" by simp
    then have "\<forall>y \<in> set xs. f y \<noteq> f x" by (metis imageI)
    then have "filter (\<lambda>y. f y = f x) xs = []" by (simp add: filter_empty_conv)
    with True show ?thesis by simp
  next
    case False
    with Cons.prems have "x \<in> set xs" and "f a \<noteq> f x" and "distinct (map f xs)" by auto
    with Cons.IH show ?thesis by simp
  qed
qed

lemma flows_named_alt:
  "flows_named n xs = filter (\<lambda>y. ref_name y = ref_name r) (filter is_flow xs)" if "n = ref_name r"
  using that by (simp add: flows_named_def conj_commute)

lemma plain_not_flow: "is_plain r \<Longrightarrow> \<not> is_flow r"
  by (simp add: is_plain_def is_flow_def)

lemma flow_not_plain: "is_flow r \<Longrightarrow> \<not> is_plain r"
  by (simp add: is_plain_def is_flow_def)

lemma filter_none: "(\<forall>x \<in> set xs. \<not> P x) \<Longrightarrow> filter P xs = []"
  by (simp add: filter_empty_conv)

lemma filter_all: "(\<forall>x \<in> set xs. P x) \<Longrightarrow> filter P xs = xs"
  by (rule filter_True)

text \<open>
  Claim C9. The filter is idempotent: run on its own output it returns that output.
\<close>

theorem filter_refs_idempotent: "filter_refs (filter_refs refs) = filter_refs refs"
proof -
  define P where "P = filter is_plain refs"
  define F where "F = flow_survivors refs"
  have out: "filter_refs refs = P @ F"
    by (simp add: P_def F_def flow_survivors_eq filter_refs_split)
  have P_plain: "\<forall>r \<in> set P. is_plain r"
    by (simp add: P_def)
  have F_flow: "\<forall>r \<in> set F. is_flow r"
    unfolding F_def using survivor_is_last by blast
  have F_dist: "distinct (map ref_name F)"
    by (simp add: F_def survivors_names distinct_first_occurrences)
  have plain_out: "filter is_plain (P @ F) = P"
    using F_flow P_plain by (simp add: filter_none flow_not_plain)
  have flow_out: "filter is_flow (P @ F) = F"
    using F_flow P_plain by (simp add: filter_none plain_not_flow)
  have named: "flows_named (ref_name r) (P @ F) = [r]" if "r \<in> set F" for r
  proof -
    have "flows_named (ref_name r) (P @ F)
            = filter (\<lambda>y. ref_name y = ref_name r) (filter is_flow (P @ F))"
      by (rule flows_named_alt) simp
    also have "\<dots> = [r]"
      unfolding flow_out using F_dist that by (rule filter_unique_key)
    finally show ?thesis .
  qed
  have "flow_survivors (P @ F) =
          map (\<lambda>n. last (flows_named n (P @ F))) (first_occurrences [] (map ref_name F))"
    using flow_survivors_char [of "P @ F"] by (simp only: flow_out)
  also have "\<dots> = map (\<lambda>n. last (flows_named n (P @ F))) (map ref_name F)"
    using F_dist by (simp add: first_occurrences_id)
  also have "\<dots> = map (\<lambda>r. r) F"
    unfolding map_map by (rule map_cong [OF refl]) (simp add: named)
  finally have surv: "flow_survivors (P @ F) = F" by simp
  have "filter_refs (P @ F) = filter is_plain (P @ F) @ flow_survivors (P @ F)"
    by (simp add: flow_survivors_eq filter_refs_split)
  with plain_out surv out show ?thesis by simp
qed

text \<open>
  Claim C10. The order of the surviving flows is determined by the input: their names are
  the \<open>Flow\<close> names of the input in order of first occurrence, and the survivor standing
  for a name is the last \<open>Flow\<close> input with that name. The survivors are the tail of the
  output, after the pass-through references.
\<close>

theorem flow_order_deterministic:
  "flow_survivors refs =
     map (\<lambda>n. last (flows_named n refs))
       (first_occurrences [] (map ref_name (filter is_flow refs)))
   \<and> filter_refs refs = filter is_plain refs @ flow_survivors refs"
proof (rule conjI)
  show "flow_survivors refs =
     map (\<lambda>n. last (flows_named n refs))
       (first_occurrences [] (map ref_name (filter is_flow refs)))"
    by (rule flow_survivors_char)
  show "filter_refs refs = filter is_plain refs @ flow_survivors refs"
    by (simp add: flow_survivors_eq filter_refs_split)
qed

text \<open>
  Scenario A of the specification, as the concrete instance of the theorem for claim C2: the
  survivor list is not empty there, and the later \<open>Flow X\<close> wins.
\<close>

theorem filter_refs_spec_witness:
  "filter_refs scenario_A = filter is_plain scenario_A @ flow_survivors scenario_A
   \<and> flow_survivors scenario_A = [(''Flow'', ''Flow X'', ''url2'')]
   \<and> (''Flow'', ''Flow X'', ''url2'') = last (flows_named ''Flow X'' scenario_A)
   \<and> filter_refs scenario_A = [(''Layout'', ''Page Layout 1'', ''''), (''Flow'', ''Flow X'', ''url2'')]"
  using filter_refs_spec [of scenario_A]
  by (simp add: scenario_A_def flow_survivors_def filter_refs_def dict_values_def
      is_plain_def is_flow_def flows_named_def ref_type_def ref_name_def)

section \<open>Properties of the identifier extractor\<close>

lemma not_alnum_slash: "\<not> is_alnum CHR ''/''"
  by (simp add: is_alnum_def)

lemma match_group_Some:
  "match_group ks s = Some g \<Longrightarrow>
     \<exists>k \<in> set ks. g = take k s \<and> k < length s \<and> list_all is_alnum g \<and> s ! k = CHR ''/''"
  by (induction ks) (auto split: if_splits)

lemma match_group_None:
  "match_group ks s = None \<Longrightarrow> k \<in> set ks \<Longrightarrow>
     \<not> (k < length s \<and> list_all is_alnum (take k s) \<and> s ! k = CHR ''/'')"
  by (induction ks) (auto split: if_splits)

text \<open>An alphanumeric run that is followed by a slash has one length only.\<close>

lemma run_length_unique:
  assumes "k < length s" "list_all is_alnum (take k s)" "s ! k = CHR ''/''"
    and "j < length s" "list_all is_alnum (take j s)" "s ! j = CHR ''/''"
  shows "j = k"
proof (rule ccontr)
  assume "j \<noteq> k"
  then consider "j < k" | "k < j" by linarith
  then show False
  proof cases
    case 1
    then have "s ! j \<in> set (take k s)"
      using assms(1) by (metis in_set_conv_nth length_take min.absorb2 nth_take order_less_imp_le)
    with assms(2,6) show False by (auto simp: list_all_iff not_alnum_slash)
  next
    case 2
    then have "s ! k \<in> set (take j s)"
      using assms(4) by (metis in_set_conv_nth length_take min.absorb2 nth_take order_less_imp_le)
    with assms(5,3) show False by (auto simp: list_all_iff not_alnum_slash)
  qed
qed


lemma startswith_split: "startswith s p \<Longrightarrow> s = p @ drop (length p) s"
  by (metis append_take_drop_id startswith_def)

lemma match_at_imp_segment:
  assumes "object_id_match_at s = Some g"
  shows "segment_at s 0 g"
proof -
  define rest where "rest = drop (length ''/ObjectManager/'') s"
  from assms have sw: "startswith s ''/ObjectManager/''"
    and mg: "match_group [18, 17, 16, 15] rest = Some g"
    by (auto simp: object_id_match_at_def rest_def split: if_splits)
  from match_group_Some [OF mg] obtain k where k: "k \<in> set [18, 17, 16, 15::nat]"
    and g: "g = take k rest" and len: "k < length rest"
    and al: "list_all is_alnum g" and sl: "rest ! k = CHR ''/''"
    by blast
  from g len have lg: "length g = k" by simp
  from k lg al have shaped: "id_shaped g" by (auto simp: id_shaped_def)
  have tk: "take (Suc k) rest = g @ ''/''"
    using len sl g by (simp add: take_Suc_conv_app_nth)
  have s: "s = ''/ObjectManager/'' @ rest"
    unfolding rest_def using sw by (rule startswith_split)
  have "take (length ''/ObjectManager/'' + length g + 1) (''/ObjectManager/'' @ rest)
          = ''/ObjectManager/'' @ take (Suc k) rest"
    by (simp add: lg)
  with tk s have "take (length ''/ObjectManager/'' + length g + 1) s = ''/ObjectManager/'' @ g @ ''/''"
    by simp
  with shaped show ?thesis by (simp add: segment_at_def)
qed

lemma len_lit: "length ''/ObjectManager/'' = 15"
  by simp

lemma segment_imp_match_at:
  assumes "segment_at s 0 g"
  shows "object_id_match_at s = Some g"
proof -
  define rest where "rest = drop 15 s"
  define n where "n = length g"
  from assms have shaped: "id_shaped g"
    by (simp add: segment_at_def)
  from assms have tk: "take (15 + n + 1) s = ''/ObjectManager/'' @ g @ ''/''"
    unfolding segment_at_def n_def len_lit by simp
  have "take 15 (take (15 + n + 1) s) = take 15 s"
    by (simp add: min_def)
  with tk have "take 15 s = ''/ObjectManager/''"
    by simp
  then have sw: "startswith s ''/ObjectManager/''"
    unfolding startswith_def len_lit .
  have "drop 15 (take (15 + n + 1) s) = take (Suc n) rest"
    by (simp add: rest_def drop_take)
  with tk have rest: "take (Suc n) rest = g @ ''/''"
    by simp
  then have "length (take (Suc n) rest) = Suc n" by (simp add: n_def)
  then have len: "n < length rest" by simp
  from len have "take (Suc n) rest = take n rest @ [rest ! n]"
    by (rule take_Suc_conv_app_nth)
  with rest have "take n rest @ [rest ! n] = g @ ''/''" by simp
  then have gk: "take n rest = g" and sl: "rest ! n = CHR ''/''"
    by simp_all
  from shaped have al: "list_all is_alnum (take n rest)"
    unfolding gk by (simp add: id_shaped_def)
  from shaped have n: "n \<in> set [18, 17, 16, 15::nat]"
    by (auto simp: id_shaped_def n_def)
  show ?thesis
  proof (cases "match_group [18, 17, 16, 15] rest")
    case None
    from match_group_None [OF None n] len al sl show ?thesis by simp
  next
    case (Some g')
    from match_group_Some [OF Some] obtain k where "g' = take k rest" "k < length rest"
      "list_all is_alnum (take k rest)" "rest ! k = CHR ''/''"
      by blast
    with run_length_unique [OF len al sl, of k] gk have "g' = g" by simp
    with Some sw show ?thesis
      unfolding object_id_match_at_def rest_def len_lit by simp
  qed
qed

lemma match_at_iff: "object_id_match_at (drop i url) = Some g \<longleftrightarrow> segment_at url i g"
proof -
  have "segment_at (drop i url) 0 g = segment_at url i g"
    by (simp add: segment_at_def)
  then show ?thesis
    using match_at_imp_segment segment_imp_match_at by blast
qed

lemma re_search_Some:
  "re_search_object_id url = Some g \<Longrightarrow>
     \<exists>i \<le> length url. object_id_match_at (drop i url) = Some g
        \<and> (\<forall>j < i. object_id_match_at (drop j url) = None)"
proof (induction url)
  case Nil
  then show ?case by simp
next
  case (Cons c cs)
  show ?case
  proof (cases "object_id_match_at (c # cs)")
    case (Some g')
    with Cons.prems have "object_id_match_at (drop 0 (c # cs)) = Some g" by simp
    then show ?thesis by blast
  next
    case None
    with Cons.prems have "re_search_object_id cs = Some g" by simp
    from Cons.IH [OF this] obtain i where i: "i \<le> length cs"
      "object_id_match_at (drop i cs) = Some g"
      "\<forall>j < i. object_id_match_at (drop j cs) = None"
      by blast
    have "\<forall>j < Suc i. object_id_match_at (drop j (c # cs)) = None"
    proof (intro allI impI)
      fix j assume "j < Suc i"
      then show "object_id_match_at (drop j (c # cs)) = None"
        using None i(3) by (cases j) simp_all
    qed
    with i(1,2) show ?thesis
      by (intro exI [of _ "Suc i"]) simp
  qed
qed

lemma re_search_None:
  "re_search_object_id url = None \<Longrightarrow> object_id_match_at (drop i url) = None"
proof (induction url arbitrary: i)
  case Nil
  then show ?case by simp
next
  case (Cons c cs)
  then show ?case
    by (cases i) (auto split: option.splits)
qed

lemma segment_at_in_range: "segment_at url i g \<Longrightarrow> i \<le> length url"
proof (rule ccontr)
  assume "segment_at url i g" and "\<not> i \<le> length url"
  then show False by (simp add: segment_at_def)
qed

lemma object_manager_segment_iff:
  "object_manager_segment url g \<longleftrightarrow> (\<exists>i. segment_at url i g)"
  using segment_at_in_range by (auto simp: object_manager_segment_def)

lemma extract_eq: "extract_object_id_from_url url = re_search_object_id url"
  by (simp add: extract_object_id_from_url_def split: option.splits)

lemma extract_finds_leftmost:
  assumes "object_manager_segment url seg"
  shows "\<exists>s i. extract_object_id_from_url url = Some s \<and> segment_at url i s
          \<and> (\<forall>j t. segment_at url j t \<longrightarrow> i \<le> j)"
proof -
  from assms obtain i0 where i0: "segment_at url i0 seg"
    by (auto simp: object_manager_segment_iff)
  then have m0: "object_id_match_at (drop i0 url) = Some seg" by (simp add: match_at_iff)
  show ?thesis
  proof (cases "re_search_object_id url")
    case None
    from re_search_None [OF None, of i0] m0 show ?thesis by simp
  next
    case (Some s)
    from re_search_Some [OF Some] obtain i where i: "object_id_match_at (drop i url) = Some s"
      "\<forall>j < i. object_id_match_at (drop j url) = None"
      by blast
    have "i \<le> j" if "segment_at url j t" for j t
    proof (rule ccontr)
      assume "\<not> i \<le> j"
      with i(2) have "object_id_match_at (drop j url) = None" by simp
      with that show False by (simp add: match_at_iff [symmetric])
    qed
    with i(1) Some show ?thesis
      by (auto simp: extract_eq match_at_iff)
  qed
qed

lemma extract_none_without_segment:
  assumes none: "\<forall>t. \<not> object_manager_segment url t"
  shows "extract_object_id_from_url url = None"
proof (cases "re_search_object_id url")
  case None
  then show ?thesis by (simp add: extract_eq)
next
  case (Some s)
  from re_search_Some [OF Some] obtain i where "object_id_match_at (drop i url) = Some s"
    by blast
  then have "segment_at url i s" by (simp add: match_at_iff)
  with none show ?thesis by (auto simp: object_manager_segment_iff)
qed

text \<open>Where the URL holds one such segment only, that segment is the result.\<close>

lemma extract_object_id_unique:
  assumes "object_manager_segment url seg"
    and "\<forall>t. object_manager_segment url t \<longrightarrow> t = seg"
  shows "extract_object_id_from_url url = Some seg"
proof -
  from extract_finds_leftmost [OF assms(1)]
  obtain s i where "extract_object_id_from_url url = Some s" "segment_at url i s"
    by blast
  with assms(2) show ?thesis by (auto simp: object_manager_segment_iff)
qed

text \<open>
  Claim C5, as amended. When the URL holds a 15 to 18 character alphanumeric segment between
  \<open>/ObjectManager/\<close> and the next \<open>/\<close>, the extractor returns such a segment, namely the
  one of the leftmost occurrence; when the URL holds none, it returns \<open>None\<close>. The function
  is total: there is no input on which it fails.
\<close>

theorem extract_object_id_leftmost:
  "(object_manager_segment url seg \<longrightarrow>
      (\<exists>s i. extract_object_id_from_url url = Some s \<and> segment_at url i s
          \<and> (\<forall>j t. segment_at url j t \<longrightarrow> i \<le> j)))
   \<and> ((\<forall>t. \<not> object_manager_segment url t) \<longrightarrow> extract_object_id_from_url url = None)"
  using extract_finds_leftmost [of url seg] extract_none_without_segment [of url]
  by blast

text \<open>
  The instance of the theorem at a URL with one identifier, and at the
  URL of a standard object, whose path segment \<open>Account\<close> is too short to be an identifier.
\<close>

theorem extract_object_id_leftmost_witness:
  "object_manager_segment url_custom_object ''01I5e000000abcdEAA''
   \<and> extract_object_id_from_url url_custom_object = Some ''01I5e000000abcdEAA''
   \<and> (\<forall>t. \<not> object_manager_segment url_standard_object t)
   \<and> extract_object_id_from_url url_standard_object = None"
proof -
  have "segment_at url_custom_object 43 ''01I5e000000abcdEAA''"
    by (simp add: segment_at_def id_shaped_def is_alnum_def url_custom_object_def)
  then have seg: "object_manager_segment url_custom_object ''01I5e000000abcdEAA''"
    unfolding object_manager_segment_iff by blast
  have c: "extract_object_id_from_url url_custom_object = Some ''01I5e000000abcdEAA''"
    by (simp add: url_custom_object_def extract_object_id_from_url_def object_id_match_at_def
      startswith_def is_alnum_def)
  have none: "extract_object_id_from_url url_standard_object = None"
    by (simp add: url_standard_object_def extract_object_id_from_url_def object_id_match_at_def
      startswith_def is_alnum_def)
  have nos: "\<not> object_manager_segment url_standard_object t" for t
    using extract_object_id_leftmost [of url_standard_object t] none by auto
  from extract_object_id_leftmost [of url_standard_object] nos
  have "extract_object_id_from_url url_standard_object = None" by blast
  with seg c nos show ?thesis by blast
qed

text \<open>
  Claim C5 as stated asks for the result to be the segment whichever segment of the URL is
  meant. A URL with two object-manager segments holds the second one, and the extractor
  returns the first.
\<close>

theorem extract_object_id_not_every_segment:
  "object_manager_segment url_two_managers ''01I000000000002''
   \<and> extract_object_id_from_url url_two_managers = Some ''01I000000000001''
   \<and> extract_object_id_from_url url_two_managers \<noteq> Some ''01I000000000002''"
proof -
  have "segment_at url_two_managers 73 ''01I000000000002''"
    by (simp add: segment_at_def id_shaped_def is_alnum_def url_two_managers_def)
  then have "object_manager_segment url_two_managers ''01I000000000002''"
    unfolding object_manager_segment_iff by blast
  moreover have "extract_object_id_from_url url_two_managers = Some ''01I000000000001''"
    by (simp add: url_two_managers_def extract_object_id_from_url_def object_id_match_at_def
      startswith_def is_alnum_def)
  ultimately show ?thesis by simp
qed

section \<open>Properties of the reference link resolver\<close>

lemma startswith_hd: "startswith s (c # p) \<Longrightarrow> \<exists>t. s = c # t"
  by (cases s) (auto simp: startswith_def)

lemma js_not_relative:
  "startswith h ''javascript:srcUp('' \<Longrightarrow> \<not> startswith h ''/'' \<and> \<not> startswith h ''http''"
  by (auto dest!: startswith_hd)

lemma relative_not_absolute: "startswith h ''/'' \<Longrightarrow> \<not> startswith h ''http''"
  by (auto dest!: startswith_hd)

lemma link_loop_char:
  "link_loop unq inst links =
     (case find (usable unq) (decoded_hrefs unq links) of
        None \<Rightarrow> ''''
      | Some h \<Rightarrow>
          (case pseudo_nav_path unq h of
             Some p \<Rightarrow> base_url inst @ p
           | None \<Rightarrow> if root_relative h then base_url inst @ h else h))"
proof (induction links)
  case Nil
  then show ?case by simp
next
  case (Cons link links)
  show ?case
  proof (cases link)
    case (Inl e)
    with Cons show ?thesis by simp
  next
    case (Inr attr)
    show ?thesis
    proof (cases attr)
      case None
      with Inr Cons show ?thesis by simp
    next
      case (Some raw)
      show ?thesis
      proof (cases "raw = []")
        case True
        with Some Inr Cons show ?thesis by simp
      next
        case False
        from False Some Inr Cons show ?thesis
          using js_not_relative [of "unq raw"] relative_not_absolute [of "unq raw"]
          by (auto simp: usable_def pseudo_nav_path_def root_relative_def absolute_def base_url_def
              Let_def split: option.splits)
      qed
    qed
  qed
qed

lemma body_char:
  "extract_reference_link_body unq inst row idx = Inr url \<Longrightarrow>
     url = link_loop unq inst (target_links row idx)"
  by (auto simp: extract_reference_link_body_def target_links_def
      split: sum.splits if_splits)

lemma body_raises:
  "extract_reference_link_body unq inst row idx = Inl e \<Longrightarrow> target_links row idx = []"
  by (auto simp: extract_reference_link_body_def target_links_def
      split: sum.splits if_splits)

lemma extract_reference_link_eq:
  "extract_reference_link unq inst row idx = Inr (link_loop unq inst (target_links row idx))"
proof (cases "extract_reference_link_body unq inst row idx")
  case (Inl e)
  from body_raises [OF Inl] Inl show ?thesis
    by (simp add: extract_reference_link_def)
next
  case (Inr url)
  from body_char [OF Inr] Inr show ?thesis
    by (simp add: extract_reference_link_def)
qed

text \<open>
  Claim C7. For every row and cell index the resolver returns a string and never raises.
  With the decoded hrefs of the target cell's anchors in document order, and the first
  usable one among them: the result is the base URL followed by the decoded inner path when
  that href is a pseudo-navigation expression wrapping a root-relative path; the base URL
  followed by the href when it is root-relative; the href itself when it is absolute; and
  the empty string when no href is usable.
\<close>

theorem extract_reference_link_spec:
  "(\<exists>url. extract_reference_link unq inst row idx = Inr url)
    \<and> (find (usable unq) (decoded_hrefs unq (target_links row idx)) = None \<longrightarrow>
          extract_reference_link unq inst row idx = Inr [])
    \<and> (\<forall>h. find (usable unq) (decoded_hrefs unq (target_links row idx)) = Some h \<longrightarrow>
          (\<forall>p. pseudo_nav_path unq h = Some p \<longrightarrow>
             extract_reference_link unq inst row idx = Inr (base_url inst @ p))
          \<and> (root_relative h \<longrightarrow> extract_reference_link unq inst row idx = Inr (base_url inst @ h))
          \<and> (absolute h \<longrightarrow> extract_reference_link unq inst row idx = Inr h))"
  (is "(\<exists>url. ?result = Inr url) \<and> (find _ ?hs = None \<longrightarrow> _) \<and> _")
proof (intro conjI allI impI)
  show "\<exists>url. ?result = Inr url"
    by (simp add: extract_reference_link_eq)
  show "?result = Inr []" if "find (usable unq) ?hs = None"
    using that by (simp add: extract_reference_link_eq link_loop_char)
next
  fix h p assume "find (usable unq) ?hs = Some h" and "pseudo_nav_path unq h = Some p"
  then show "?result = Inr (base_url inst @ p)"
    by (simp add: extract_reference_link_eq link_loop_char)
next
  fix h assume f: "find (usable unq) ?hs = Some h" and r: "root_relative h"
  from r have "pseudo_nav_path unq h = None"
    using js_not_relative [of h] by (auto simp: pseudo_nav_path_def root_relative_def)
  with f r show "?result = Inr (base_url inst @ h)"
    by (simp add: extract_reference_link_eq link_loop_char)
next
  fix h assume f: "find (usable unq) ?hs = Some h" and a: "absolute h"
  from a have "pseudo_nav_path unq h = None" and "\<not> root_relative h"
    using js_not_relative [of h] relative_not_absolute [of h]
    by (auto simp: pseudo_nav_path_def root_relative_def absolute_def)
  with f show "?result = Inr h"
    by (simp add: extract_reference_link_eq link_loop_char)
qed

text \<open>
  The instances of the theorem: a cell whose first anchors raise, have
  no href or a fragment only, before a \<open>srcUp\<close> link as the dependency page renders it;
  a root-relative link; an absolute link; and a cell with no usable link.
\<close>

theorem extract_reference_link_spec_witness:
  "find (usable pct_decode) (decoded_hrefs pct_decode (target_links row_srcup 1)) = Some href_srcup
   \<and> pseudo_nav_path pct_decode href_srcup = Some ''/01p5e000000abcd?isdtp=p1''
   \<and> extract_reference_link pct_decode ''x.my.salesforce.com'' row_srcup 1
        = Inr ''https://x.my.salesforce.com/01p5e000000abcd?isdtp=p1''
   \<and> find (usable pct_decode) (decoded_hrefs pct_decode (target_links row_relative 1))
        = Some ''/00h5e000001xyz ''
   \<and> root_relative ''/00h5e000001xyz ''
   \<and> extract_reference_link pct_decode ''x.my.salesforce.com'' row_relative 1
        = Inr ''https://x.my.salesforce.com/00h5e000001xyz ''
   \<and> find (usable pct_decode) (decoded_hrefs pct_decode (target_links row_absolute 1))
        = Some ''https://example.com/a''
   \<and> absolute ''https://example.com/a''
   \<and> extract_reference_link pct_decode ''x.my.salesforce.com'' row_absolute 1
        = Inr ''https://example.com/a''
   \<and> find (usable pct_decode) (decoded_hrefs pct_decode (target_links row_nolink 1)) = None
   \<and> extract_reference_link pct_decode ''x.my.salesforce.com'' row_nolink 1 = Inr []"
proof -
  let ?inst = "''x.my.salesforce.com''"
  have a1: "find (usable pct_decode) (decoded_hrefs pct_decode (target_links row_srcup 1)) = Some href_srcup"
    by code_simp
  have a2: "pseudo_nav_path pct_decode href_srcup = Some ''/01p5e000000abcd?isdtp=p1''"
    by code_simp
  from extract_reference_link_spec [of pct_decode ?inst row_srcup 1] a1 a2
  have a3: "extract_reference_link pct_decode ?inst row_srcup 1
        = Inr (base_url ?inst @ ''/01p5e000000abcd?isdtp=p1'')"
    by blast
  have b1: "find (usable pct_decode) (decoded_hrefs pct_decode (target_links row_relative 1))
        = Some ''/00h5e000001xyz ''"
    by code_simp
  have b2: "root_relative ''/00h5e000001xyz ''"
    by code_simp
  from extract_reference_link_spec [of pct_decode ?inst row_relative 1] b1 b2
  have b3: "extract_reference_link pct_decode ?inst row_relative 1
        = Inr (base_url ?inst @ ''/00h5e000001xyz '')"
    by blast
  have c1: "find (usable pct_decode) (decoded_hrefs pct_decode (target_links row_absolute 1))
        = Some ''https://example.com/a''"
    by code_simp
  have c2: "absolute ''https://example.com/a''"
    by code_simp
  from extract_reference_link_spec [of pct_decode ?inst row_absolute 1] c1 c2
  have c3: "extract_reference_link pct_decode ?inst row_absolute 1 = Inr ''https://example.com/a''"
    by blast
  have d1: "find (usable pct_decode) (decoded_hrefs pct_decode (target_links row_nolink 1)) = None"
    by code_simp
  from extract_reference_link_spec [of pct_decode ?inst row_nolink 1] d1
  have d3: "extract_reference_link pct_decode ?inst row_nolink 1 = Inr []"
    by blast
  from a1 a2 a3 b1 b2 b3 c1 c2 c3 d1 d3 show ?thesis
    by (simp add: base_url_def)
qed

section \<open>Properties of the merge writer\<close>

subsection \<open>The single writes\<close>

lemma first_chars_take: "first_chars (int n) s = take n s"
proof (induction s arbitrary: n)
  case Nil
  then show ?case by simp
next
  case (Cons c s)
  show ?case
  proof (cases n)
    case 0
    then show ?thesis by simp
  next
    case (Suc m)
    with Cons.IH [of m] show ?thesis by simp
  qed
qed

lemma first_chars_cap: "first_chars 32767 s = take 32767 s"
  using first_chars_take [of 32767 s] by simp

lemma check_string_stored: "check_string s = Inr v \<Longrightarrow> v = take 32767 s"
  by (auto simp: check_string_def first_chars_cap Let_def split: if_splits)

lemma check_string_ok: "cell_text_ok s \<Longrightarrow> check_string s = Inr s"
  by (simp add: check_string_def first_chars_cap cell_text_ok_def Let_def)

lemma check_string_raises:
  "check_string s = Inl e \<longleftrightarrow> e = Error \<and> list_ex illegal_char (take 32767 s)"
  by (auto simp: check_string_def first_chars_cap Let_def)

lemma marker_text_ok: "check_string no_references_marker = Inr no_references_marker"
  by code_simp

lemma set_value_stored:
  "set_value ws r c s = Inr ws' \<Longrightarrow> ws' = put_value ws r c (VStr (take 32767 s))"
  by (auto simp: set_value_def dest: check_string_stored split: sum.splits)

lemma set_hyperlink_other:
  "r' \<noteq> r \<or> c' \<noteq> c \<Longrightarrow> fst (set_hyperlink ws r c url) r' c' = ws r' c'"
  by (auto simp: set_hyperlink_def Let_def put_value_def split: sum.splits)

lemma set_hyperlink_link: "hyperlink (fst (set_hyperlink ws r c url) r c) = Some url"
  by (auto simp: set_hyperlink_def Let_def put_value_def split: sum.splits)

lemma set_hyperlink_valued:
  "val (ws r c) \<noteq> VNone \<Longrightarrow>
     set_hyperlink ws r c url
       = (\<lambda>r' c'. if r' = r \<and> c' = c then (ws r c)\<lparr>hyperlink := Some url\<rparr> else ws r' c', None)"
  by (simp add: set_hyperlink_def Let_def)

lemma set_hyperlink_raises:
  "snd (set_hyperlink ws r c url) = Some e \<longleftrightarrow>
     e = Error \<and> val (ws r c) = VNone \<and> list_ex illegal_char (take 32767 url)"
  by (auto simp: set_hyperlink_def check_string_def first_chars_cap Let_def)

subsection \<open>The loop over the references\<close>

lemma write_ref_row_other: "r \<noteq> r0 \<Longrightarrow> fst (write_ref_row ws r0 ref) r c = ws r c"
proof -
  assume far: "r \<noteq> r0"
  obtain rt rn link where ref: "ref = (rt, rn, link)" by (cases ref)
  show ?thesis
  proof (cases "set_value ws r0 9 rt")
    case (Inl e)
    with ref show ?thesis by simp
  next
    case type_set: (Inr ws1)
    from set_value_stored [OF type_set] far have ws1: "ws1 r c = ws r c"
      by (simp add: put_value_def)
    show ?thesis
    proof (cases "set_value ws1 r0 10 rn")
      case (Inl e)
      with ref type_set ws1 show ?thesis by simp
    next
      case name_set: (Inr ws2)
      from set_value_stored [OF name_set] far ws1 have ws2: "ws2 r c = ws r c"
        by (simp add: put_value_def)
      from far have "fst (set_hyperlink ws2 r0 10 link) r c = ws2 r c"
        by (simp add: set_hyperlink_other)
      with ref type_set name_set ws2 show ?thesis by simp
    qed
  qed
qed

lemma write_ref_row_same:
  assumes "\<forall>c. ws r0 c = empty_cell" and "snd (write_ref_row ws r0 ref) = None"
  shows "fst (write_ref_row ws r0 ref) r0 c = reference_row (stored ref) c"
proof -
  obtain rt rn link where ref: "ref = (rt, rn, link)" by (cases ref)
  from assms(2) ref obtain ws1 where type_set: "set_value ws r0 9 rt = Inr ws1"
    by (cases "set_value ws r0 9 rt") auto
  from assms(2) ref type_set obtain ws2 where name_set: "set_value ws1 r0 10 rn = Inr ws2"
    by (cases "set_value ws1 r0 10 rn") auto
  from set_value_stored [OF type_set] set_value_stored [OF name_set]
  have ws2: "ws2 = put_value (put_value ws r0 9 (VStr (take 32767 rt))) r0 10 (VStr (take 32767 rn))"
    by simp
  then have "val (ws2 r0 10) \<noteq> VNone" by (simp add: put_value_def)
  from set_hyperlink_valued [where ws = ws2 and r = r0 and c = 10 and url = link, OF this]
  have "fst (write_ref_row ws r0 ref)
      = (if link \<noteq> []
         then (\<lambda>r' c'. if r' = r0 \<and> c' = 10 then (ws2 r0 10)\<lparr>hyperlink := Some link\<rparr> else ws2 r' c')
         else ws2)"
    using ref type_set name_set by simp
  with assms(1) show ?thesis
    by (simp add: ws2 put_value_def reference_row_def stored_def ref
        ref_type_def ref_name_def ref_link_def empty_cell_def)
qed

lemma write_ref_row_ok:
  assumes "cell_text_ok (ref_type ref)" and "cell_text_ok (ref_name ref)"
  shows "snd (write_ref_row ws r0 ref) = None"
proof -
  obtain rt rn link where ref: "ref = (rt, rn, link)" by (cases ref)
  from assms ref have rt: "check_string rt = Inr rt" and rn: "check_string rn = Inr rn"
    by (simp_all add: check_string_ok ref_type_def ref_name_def)
  have "val (put_value (put_value ws r0 9 (VStr rt)) r0 10 (VStr rn) r0 10) \<noteq> VNone"
    by (simp add: put_value_def)
  from set_hyperlink_valued [where ws = "put_value (put_value ws r0 9 (VStr rt)) r0 10 (VStr rn)"
      and r = r0 and c = 10 and url = link, OF this] rt rn ref
  show ?thesis
    by (simp add: set_value_def)
qed

lemma write_refs_outside:
  "r < r0 \<or> r0 + length refs \<le> r \<Longrightarrow> fst (write_refs ws r0 refs) r c = ws r c"
proof (induction refs arbitrary: ws r0)
  case Nil
  then show ?case by simp
next
  case (Cons ref rest)
  from Cons.prems have far: "r \<noteq> r0" and next_row: "r < r0 + 1 \<or> r0 + 1 + length rest \<le> r"
    by auto
  obtain ws1 res where step: "write_ref_row ws r0 ref = (ws1, res)"
    by (cases "write_ref_row ws r0 ref")
  from write_ref_row_other [OF far, of ws ref c] step have ws1: "ws1 r c = ws r c" by simp
  show ?case
  proof (cases res)
    case None
    from Cons.IH [OF next_row, of ws1] step None ws1 show ?thesis by simp
  next
    case (Some e)
    with step ws1 show ?thesis by simp
  qed
qed

lemma write_refs_row:
  "j < length refs \<Longrightarrow> (\<forall>c. ws (r0 + j) c = empty_cell) \<Longrightarrow> snd (write_refs ws r0 refs) = None \<Longrightarrow>
     fst (write_refs ws r0 refs) (r0 + j) c = reference_row (stored (refs ! j)) c"
proof (induction refs arbitrary: ws r0 j)
  case Nil
  then show ?case by simp
next
  case (Cons ref rest)
  obtain ws1 res where step: "write_ref_row ws r0 ref = (ws1, res)"
    by (cases "write_ref_row ws r0 ref")
  from Cons.prems(3) step have row_ok: "res = None"
    and rest_done: "snd (write_refs ws1 (r0 + 1) rest) = None"
    by (cases res; simp)+
  show ?case
  proof (cases j)
    case 0
    with Cons.prems have empty: "\<forall>c. ws r0 c = empty_cell" by simp
    have "fst (write_refs ws1 (r0 + 1) rest) r0 c = ws1 r0 c"
      by (rule write_refs_outside) simp
    moreover from write_ref_row_same [where ws = ws and ?r0.0 = r0 and ref = ref and c = c] empty step row_ok
    have "ws1 r0 c = reference_row (stored ref) c" by simp
    ultimately show ?thesis using 0 step row_ok by simp
  next
    case (Suc j')
    with Cons.prems have j': "j' < length rest" and empty: "\<forall>c. ws (r0 + 1 + j') c = empty_cell"
      by simp_all
    have "\<forall>c. ws1 (r0 + 1 + j') c = empty_cell"
    proof
      fix c'
      from write_ref_row_other [of "r0 + 1 + j'" r0 ws ref c'] step empty
      show "ws1 (r0 + 1 + j') c' = empty_cell" by simp
    qed
    from Cons.IH [OF j' this rest_done] Suc step row_ok show ?thesis
      by simp
  qed
qed

lemma write_refs_ok:
  "\<forall>ref \<in> set refs. cell_text_ok (ref_type ref) \<and> cell_text_ok (ref_name ref) \<Longrightarrow>
     snd (write_refs ws r0 refs) = None"
proof (induction refs arbitrary: ws r0)
  case Nil
  then show ?case by simp
next
  case (Cons ref rest)
  obtain ws1 res where step: "write_ref_row ws r0 ref = (ws1, res)"
    by (cases "write_ref_row ws r0 ref")
  from Cons.prems write_ref_row_ok [of ref ws r0] step have "res = None" by simp
  with Cons.IH [of ws1 "r0 + 1"] Cons.prems step show ?case by simp
qed

subsection \<open>The block\<close>

text \<open>
  A block that is left without an exception has done what the specification says of the
  merge writer, with every text as the worksheet stores it.
\<close>

lemma merge_write_refs:
  assumes "refs \<noteq> []" and "merge_write ws R url refs = (ws', Inr n)"
  shows "n = length refs"
    and "j < length refs \<Longrightarrow> ws' (R + 1 + j) c = reference_row (stored (refs ! j)) c"
    and "rows_inserted_at ws ws' R (length refs) url"
proof -
  define ws1 where "ws1 = fst (set_hyperlink ws R 1 url)"
  define ws2 where "ws2 = insert_rows ws1 (R + 1) (length refs)"
  from assms have linked: "snd (set_hyperlink ws R 1 url) = None"
    by (cases "set_hyperlink ws R 1 url")
       (auto simp: merge_write_def split: option.splits prod.splits)
  with assms have written: "snd (write_refs ws2 (R + 1) refs) = None"
    and res: "ws' = fst (write_refs ws2 (R + 1) refs)" and n: "n = length refs"
    by (cases "set_hyperlink ws R 1 url"; cases "write_refs ws2 (R + 1) refs";
        auto simp: merge_write_def ws1_def ws2_def split: option.splits)+
  show "n = length refs" by (rule n)
  show "ws' (R + 1 + j) c = reference_row (stored (refs ! j)) c" if "j < length refs"
  proof -
    have "\<forall>c. ws2 (R + 1 + j) c = empty_cell"
      using that by (simp add: ws2_def insert_rows_def)
    from write_refs_row [OF that this written] show ?thesis by (simp add: res)
  qed
  show "rows_inserted_at ws ws' R (length refs) url"
    unfolding rows_inserted_at_def res
  proof (intro conjI allI impI)
    fix r c :: nat assume "r \<le> R \<and> (r, c) \<noteq> (R, 1)"
    then show "fst (write_refs ws2 (R + 1) refs) r c = ws r c"
      by (auto simp: write_refs_outside ws2_def insert_rows_def ws1_def set_hyperlink_other)
  next
    show "hyperlink (fst (write_refs ws2 (R + 1) refs) R 1) = Some url"
      by (simp add: write_refs_outside ws2_def insert_rows_def ws1_def set_hyperlink_link)
  next
    fix r c :: nat assume "R < r"
    then show "fst (write_refs ws2 (R + 1) refs) (r + length refs) c = ws r c"
      by (simp add: write_refs_outside ws2_def insert_rows_def ws1_def set_hyperlink_other)
  qed
qed

lemma merge_write_empty:
  assumes "merge_write ws R url [] = (ws', Inr n)"
  shows "n = 1"
    and "ws' (R + 1) c = marker_row c"
    and "rows_inserted_at ws ws' R 1 url"
proof -
  define ws1 where "ws1 = fst (set_hyperlink ws R 1 url)"
  from assms have linked: "snd (set_hyperlink ws R 1 url) = None"
    by (cases "set_hyperlink ws R 1 url")
       (auto simp: merge_write_def split: option.splits prod.splits)
  with assms have res: "ws' = put_value (insert_rows ws1 (R + 1) 1) (R + 1) 9 (VStr no_references_marker)"
    and n: "n = 1"
    by (cases "set_hyperlink ws R 1 url";
        auto simp: merge_write_def ws1_def set_value_def marker_text_ok split: option.splits)+
  show "n = 1" by (rule n)
  show "ws' (R + 1) c = marker_row c"
    by (simp add: res put_value_def insert_rows_def marker_row_def empty_cell_def)
  show "rows_inserted_at ws ws' R 1 url"
    unfolding rows_inserted_at_def res
    by (auto simp: put_value_def insert_rows_def ws1_def set_hyperlink_other set_hyperlink_link)
qed

text \<open>
  The block is left without an exception when the worksheet takes every text it is
  given: type and name of every reference, and the URL of the field when the label cell
  has no value of its own.
\<close>

lemma merge_write_completes:
  assumes "val (ws R 1) \<noteq> VNone \<or> \<not> list_ex illegal_char (take 32767 url)"
    and "\<forall>ref \<in> set refs. cell_text_ok (ref_type ref) \<and> cell_text_ok (ref_name ref)"
  shows "snd (merge_write ws R url refs) = Inr (if refs = [] then 1 else length refs)"
proof -
  from assms(1) have "snd (set_hyperlink ws R 1 url) = None"
    using set_hyperlink_raises [of ws R 1 url] by (cases "snd (set_hyperlink ws R 1 url)") auto
  then obtain ws1 where linked: "set_hyperlink ws R 1 url = (ws1, None)"
    by (cases "set_hyperlink ws R 1 url") auto
  show ?thesis
  proof (cases "refs = []")
    case True
    with linked show ?thesis
      by (simp add: merge_write_def set_value_def marker_text_ok)
  next
    case False
    from write_refs_ok [OF assms(2), of "insert_rows ws1 (R + 1) (length refs)" "R + 1"]
    obtain ws2 where
      "write_refs (insert_rows ws1 (R + 1) (length refs)) (R + 1) refs = (ws2, None)"
      by (cases "write_refs (insert_rows ws1 (R + 1) (length refs)) (R + 1) refs") auto
    with linked False show ?thesis
      by (simp add: merge_write_def)
  qed
qed

lemma stored_ok:
  "cell_text_ok (ref_type ref) \<Longrightarrow> cell_text_ok (ref_name ref) \<Longrightarrow> stored ref = ref"
  by (cases ref) (simp add: stored_def cell_text_ok_def ref_type_def ref_name_def ref_link_def)

text \<open>
  So for texts the worksheet takes as they are the merge writer does what the
  specification says of it: \<open>N\<close> rows for \<open>N \<ge> 1\<close> references, each holding type, name
  and link of its reference, or the one marker row, and the count of the rows.
\<close>

lemma merge_write_accepted:
  assumes "val (ws R 1) \<noteq> VNone \<or> \<not> list_ex illegal_char (take 32767 url)"
    and "\<forall>ref \<in> set refs. cell_text_ok (ref_type ref) \<and> cell_text_ok (ref_name ref)"
  shows "snd (merge_write ws R url refs) = Inr (if refs = [] then 1 else length refs)"
    and "rows_inserted_at ws (fst (merge_write ws R url refs)) R
           (if refs = [] then 1 else length refs) url"
    and "j < length refs \<Longrightarrow>
           fst (merge_write ws R url refs) (R + 1 + j) c = reference_row (refs ! j) c"
    and "refs = [] \<Longrightarrow> fst (merge_write ws R url refs) (R + 1) c = marker_row c"
proof -
  define n where "n = (if refs = [] then 1 else length refs)"
  define ws' where "ws' = fst (merge_write ws R url refs)"
  from merge_write_completes [where ws = ws and R = R and url = url and refs = refs] assms
  have res: "merge_write ws R url refs = (ws', Inr n)"
    by (cases "merge_write ws R url refs") (simp add: n_def ws'_def)
  from res show "snd (merge_write ws R url refs) = Inr (if refs = [] then 1 else length refs)"
    by (simp add: n_def)
  show "rows_inserted_at ws ws' R (if refs = [] then 1 else length refs) url"
  proof (cases "refs = []")
    case True
    with res have "merge_write ws R url [] = (ws', Inr n)" by simp
    from merge_write_empty(3) [OF this] True show ?thesis by simp
  next
    case False
    from merge_write_refs(3) [OF False res] False show ?thesis by simp
  qed
  show "ws' (R + 1 + j) c = reference_row (refs ! j) c" if j: "j < length refs"
  proof -
    from j have ne: "refs \<noteq> []" and "refs ! j \<in> set refs" by auto
    with assms(2) have "stored (refs ! j) = refs ! j" by (simp add: stored_ok)
    with merge_write_refs(2) [OF ne res j, of c] show ?thesis by simp
  qed
  show "ws' (R + 1) c = marker_row c" if "refs = []"
  proof -
    from that res have "merge_write ws R url [] = (ws', Inr n)" by simp
    from merge_write_empty(2) [OF this] show ?thesis .
  qed
qed

text \<open>
  Scenario A and scenario B of the specification on a sheet with one field in row 2.
\<close>

lemma merge_write_scenarios:
  "filter_refs scenario_A \<noteq> []
   \<and> snd (merge_write sheet_one_field 2 field_url_0 (filter_refs scenario_A)) = Inr 2
   \<and> fst (merge_write sheet_one_field 2 field_url_0 (filter_refs scenario_A)) 3 9
        = \<lparr>val = VStr ''Layout'', hyperlink = None\<rparr>
   \<and> fst (merge_write sheet_one_field 2 field_url_0 (filter_refs scenario_A)) 4 10
        = \<lparr>val = VStr ''Flow X'', hyperlink = Some ''url2''\<rparr>
   \<and> filter_refs scenario_B = []
   \<and> snd (merge_write sheet_one_field 2 field_url_0 (filter_refs scenario_B)) = Inr 1
   \<and> fst (merge_write sheet_one_field 2 field_url_0 (filter_refs scenario_B)) 3 9
        = \<lparr>val = VStr ''No references found'', hyperlink = None\<rparr>"
  by code_simp

text \<open>
  Claim C3 says that for every row \<open>R\<close> and every list of \<open>N \<ge> 1\<close> references the merge
  writer inserts \<open>N\<close> rows, writes type and name of each reference into them and adds \<open>N\<close>
  to \<open>RowOffset\<close>. The block does so when the worksheet takes every text. For the two
  references below, the second with the control character U+0001 in its name, it inserts
  the two rows, writes the first reference and the type of the second, and is then left
  by the exception the name raises: the name cell stays empty, the rows below \<open>R\<close> stand
  two rows lower, and nothing is added to \<open>RowOffset\<close>.
\<close>

theorem merge_write_control_character:
  "length refs_control_char = 2
   \<and> snd (merge_write sheet_three_tagged 2 field_url_0 refs_control_char) = Inl Error
   \<and> fst (merge_write sheet_three_tagged 2 field_url_0 refs_control_char) 3 9
        = \<lparr>val = VStr ''Layout'', hyperlink = None\<rparr>
   \<and> fst (merge_write sheet_three_tagged 2 field_url_0 refs_control_char) 3 10
        = \<lparr>val = VStr ''Page Layout 1'', hyperlink = None\<rparr>
   \<and> fst (merge_write sheet_three_tagged 2 field_url_0 refs_control_char) 4 9
        = \<lparr>val = VStr ''ApexClass'', hyperlink = None\<rparr>
   \<and> fst (merge_write sheet_three_tagged 2 field_url_0 refs_control_char) 4 10 = empty_cell
   \<and> val (sheet_three_tagged 3 3) = VNum 3
   \<and> val (fst (merge_write sheet_three_tagged 2 field_url_0 refs_control_char) 5 3) = VNum 3"
  by code_simp

section \<open>Properties of the pre-scan\<close>

lemma scan_rows_set:
  "set (scan_rows ws rows) =
     (\<lambda>r. \<lparr>api_name = val (ws r 2), label = val (ws r 1), original_row = r\<rparr>) `
       {r \<in> set rows. truthy (val (ws r 2)) \<and> truthy (val (ws r 1)) \<and> \<not> truthy (marker_of ws r)}"
  by (induction rows) (auto simp: marker_of_def)

lemma prescan_item:
  "item \<in> set (prescan ws max_row start_row limit_arg) \<Longrightarrow>
     \<not> truthy (marker_of ws (original_row item))
     \<and> truthy (label item) \<and> truthy (api_name item)
     \<and> label item = val (ws (original_row item) 1)
     \<and> api_name item = val (ws (original_row item) 2)
     \<and> start_row \<le> original_row item \<and> original_row item \<le> max_row"
  by (auto simp: prescan_def scan_rows_set Let_def)

lemma merge_write_marks:
  assumes "\<forall>ref \<in> set refs. ref_type ref \<noteq> []" and "merge_write ws R url refs = (ws', Inr n)"
  shows "truthy (marker_of ws' R)"
proof (cases "refs = []")
  case True
  with assms(2) have "merge_write ws R url [] = (ws', Inr n)" by simp
  from merge_write_empty(2) [OF this, of 9] show ?thesis
    by (simp add: marker_of_def marker_row_def no_references_marker_def)
next
  case False
  then have first: "0 < length refs" by simp
  from False assms(1) have "ref_type (refs ! 0) \<noteq> []"
    by (cases refs) auto
  then have "take 32767 (ref_type (refs ! 0)) \<noteq> []"
    by (cases "ref_type (refs ! 0)") simp_all
  with merge_write_refs(2) [OF False assms(2) first, of 9] show ?thesis
    by (simp add: marker_of_def reference_row_def stored_def ref_type_def)
qed

text \<open>
  Claim C6, as amended. The pre-scan takes a row into the work list only if column 9 of
  the following row holds no truthy value: no value, the empty text, the number zero or
  \<open>False\<close>. So a row whose marker is truthy yields no work item; and the sheet the merge
  writer leaves for a field at row \<open>R\<close>, when its block ran to its end, has a truthy
  marker below \<open>R\<close> (a reference type, which the parser only admits when not empty, or
  the sentinel), so that a second scan yields no work item for that row, whatever its
  bounds.
\<close>

theorem prescan_skips_marked:
  "(\<forall>item \<in> set (prescan ws max_row start_row limit_arg).
       \<not> truthy (marker_of ws (original_row item)))
   \<and> (truthy (marker_of ws r) \<longrightarrow>
         r \<notin> original_row ` set (prescan ws max_row start_row limit_arg))
   \<and> ((\<forall>ref \<in> set refs. ref_type ref \<noteq> []) \<longrightarrow>
       snd (merge_write ws R url refs) = Inr n \<longrightarrow>
         R \<notin> original_row ` set (prescan (fst (merge_write ws R url refs)) max_row' start_row' limit_arg'))"
proof (intro conjI ballI impI)
  fix item assume "item \<in> set (prescan ws max_row start_row limit_arg)"
  then show "\<not> truthy (marker_of ws (original_row item))"
    using prescan_item by blast
next
  assume "truthy (marker_of ws r)"
  then show "r \<notin> original_row ` set (prescan ws max_row start_row limit_arg)"
    using prescan_item by blast
next
  assume typed: "\<forall>ref \<in> set refs. ref_type ref \<noteq> []"
    and "snd (merge_write ws R url refs) = Inr n"
  then have "merge_write ws R url refs = (fst (merge_write ws R url refs), Inr n)"
    by (cases "merge_write ws R url refs") simp
  from merge_write_marks [OF typed this]
  show "R \<notin> original_row ` set (prescan (fst (merge_write ws R url refs)) max_row' start_row' limit_arg')"
    using prescan_item by blast
qed

text \<open>
  The instances of the theorem: the first scan of the one-field sheet finds
  the field, and the scans after scenario A and scenario B were merged do not.
\<close>

theorem prescan_skips_marked_witness:
  "map original_row (prescan sheet_one_field 2 2 None) = [2]
   \<and> \<not> truthy (marker_of sheet_one_field 2)
   \<and> truthy (marker_of (fst (merge_write sheet_one_field 2 field_url_0 (filter_refs scenario_A))) 2)
   \<and> 2 \<notin> original_row ` set (prescan (fst (merge_write sheet_one_field 2 field_url_0 (filter_refs scenario_A))) 4 2 None)
   \<and> snd (merge_write sheet_one_field 2 field_url_0 (filter_refs scenario_B)) = Inr 1
   \<and> truthy (marker_of (fst (merge_write sheet_one_field 2 field_url_0 (filter_refs scenario_B))) 2)
   \<and> 2 \<notin> original_row ` set (prescan (fst (merge_write sheet_one_field 2 field_url_0 (filter_refs scenario_B))) 3 2 None)"
proof -
  have one: "prescan sheet_one_field 2 2 None
      = [\<lparr>api_name = VStr ''My_Field__c'', label = VStr ''My Field'', original_row = 2\<rparr>]"
    by code_simp
  note first_run = prescan_skips_marked [of sheet_one_field 2 2 None]
  from first_run one have unmarked: "\<not> truthy (marker_of sheet_one_field 2)"
    by simp
  have markedA: "truthy (marker_of (fst (merge_write sheet_one_field 2 field_url_0 (filter_refs scenario_A))) 2)"
    by code_simp
  have markedB: "truthy (marker_of (fst (merge_write sheet_one_field 2 field_url_0 (filter_refs scenario_B))) 2)"
    by code_simp
  from prescan_skips_marked [where ws = "fst (merge_write sheet_one_field 2 field_url_0 (filter_refs scenario_A))"
      and r = 2 and max_row = 4 and start_row = 2 and limit_arg = None] markedA
  have skipA: "2 \<notin> original_row ` set (prescan (fst (merge_write sheet_one_field 2 field_url_0 (filter_refs scenario_A))) 4 2 None)"
    by blast
  have typedB: "\<forall>ref \<in> set (filter_refs scenario_B). ref_type ref \<noteq> []"
    by code_simp
  have doneB: "snd (merge_write sheet_one_field 2 field_url_0 (filter_refs scenario_B)) = Inr 1"
    by code_simp
  from prescan_skips_marked [where refs = "filter_refs scenario_B" and R = 2 and ws = sheet_one_field
      and url = field_url_0 and n = 1 and max_row' = 3 and start_row' = 2 and limit_arg' = None]
    typedB doneB
  have skipB: "2 \<notin> original_row ` set (prescan (fst (merge_write sheet_one_field 2 field_url_0 (filter_refs scenario_B))) 3 2 None)"
    by blast
  from one unmarked markedA skipA doneB markedB skipB show ?thesis by simp
qed

text \<open>
  Claim C6 as stated fails on a marker cell that is populated and falsy: with the number 0
  in column 9 of row 3 the field of row 2 is taken into the work list.
\<close>

theorem prescan_zero_marker_not_skipped:
  "map original_row (prescan sheet_zero_marker 3 2 None) = [2]
   \<and> marker_of sheet_zero_marker 2 = VNum 0
   \<and> \<not> cell_empty (marker_of sheet_zero_marker 2)"
  by code_simp

section \<open>Properties of the navigation\<close>

lemma try_links_clicked:
  "t \<in> set (fst (try_links unq l links)) \<Longrightarrow> py_lower t = py_lower l"
proof (induction links)
  case Nil
  then show ?case by simp
next
  case (Cons link links)
  then show ?case
    by (auto simp: Let_def split: sum.splits if_splits click_outcome.splits prod.splits)
qed

lemma try_selectors_clicked:
  "t \<in> set (fst (try_selectors unq l page selectors)) \<Longrightarrow> py_lower t = py_lower l"
proof (induction selectors)
  case Nil
  then show ?case by simp
next
  case (Cons selector selectors)
  show ?case
  proof (cases "page selector")
    case (Raises e)
    with Cons show ?thesis by simp
  next
    case (Links links)
    obtain clicked r where tl: "try_links unq l links = (clicked, r)"
      by (cases "try_links unq l links")
    obtain clicked' r' where ts: "try_selectors unq l page selectors = (clicked', r')"
      by (cases "try_selectors unq l page selectors")
    from Cons.prems Links tl ts have "t \<in> set clicked \<or> t \<in> set clicked'"
      by (cases r) auto
    then show ?thesis
    proof
      assume "t \<in> set clicked"
      with tl try_links_clicked [of t unq l links] show ?thesis by simp
    next
      assume "t \<in> set clicked'"
      with ts Cons.IH show ?thesis by simp
    qed
  qed
qed

lemma click_field_from_table_clicked:
  assumes "click_field_from_table unq page field_label field_api_name = Inr (clicked, r)"
    and "t \<in> set clicked"
  shows "\<exists>l. field_label = VStr l \<and> py_lower t = py_lower l"
proof (cases field_label)
  case (VStr l)
  with assms have "t \<in> set (fst (try_selectors unq l page (field_link_selectors l)))"
    by (simp add: click_field_from_table_def)
  then have "py_lower t = py_lower l" by (rule try_selectors_clicked)
  with VStr show ?thesis by simp
qed (insert assms, simp_all add: click_field_from_table_def)

lemma clicks_of_event:
  "ev \<in> set (clicks_of a term clicked) \<Longrightarrow>
     during ev = a \<and> search_term ev = term \<and> link_text ev \<in> set clicked"
  by (auto simp: clicks_of_def)

lemma second_attempt_clicks:
  assumes "ev \<in> set (snd (second_attempt unq env field_label field_api_name))"
  shows "(\<exists>l. field_label = VStr l \<and> py_lower (link_text ev) = py_lower l)
     \<and> during ev = ByApiName \<and> search_term ev = field_api_name"
proof (cases "click_field_from_table unq (results env ByApiName) field_label field_api_name")
  case (Inl e)
  with assms show ?thesis by (simp add: second_attempt_def split: if_splits)
next
  case (Inr res)
  obtain clicked r where res: "res = (clicked, r)" by (cases res)
  from assms Inr res have "ev \<in> set (clicks_of ByApiName field_api_name clicked)"
    by (simp add: second_attempt_def split: if_splits)
  from clicks_of_event [OF this] click_field_from_table_clicked [OF Inr [unfolded res]]
  show ?thesis by blast
qed

text \<open>
  Claim C4, as amended. In every search attempt, each link the navigation clicks has a
  text that, stripped of surrounding white space, equals the field's label under
  case-insensitive comparison of the whole string; this holds in the first attempt, which
  searches for the label, and in the retry, which searches for the API name: the retry
  changes the term typed into Quick Find, not the text the link is compared with.
\<close>

theorem clicked_link_matches_label:
  "\<forall>ev \<in> set (snd (use_fields_page_quick_find unq env field_label field_api_name)).
     (\<exists>l. field_label = VStr l \<and> py_lower (link_text ev) = py_lower l)
     \<and> search_term ev = (case during ev of ByLabel \<Rightarrow> field_label | ByApiName \<Rightarrow> field_api_name)"
proof
  fix ev
  assume ev: "ev \<in> set (snd (use_fields_page_quick_find unq env field_label field_api_name))"
  let ?goal = "(\<exists>l. field_label = VStr l \<and> py_lower (link_text ev) = py_lower l)
     \<and> search_term ev = (case during ev of ByLabel \<Rightarrow> field_label | ByApiName \<Rightarrow> field_api_name)"
  have second: ?goal if "ev \<in> set (snd (second_attempt unq env field_label field_api_name))"
    using second_attempt_clicks [OF that] by simp
  have first: ?goal
    if "click_field_from_table unq (results env ByLabel) field_label field_api_name = Inr (clicked, r)"
      and "ev \<in> set (clicks_of ByLabel field_label clicked)" for clicked r
    using clicks_of_event [OF that(2)] click_field_from_table_clicked [OF that(1)] by auto
  show ?goal
  proof (cases "find_search_box (box_visible env) quick_find_selectors")
    case None
    with ev show ?thesis by (simp add: use_fields_page_quick_find_def)
  next
    case (Some search_box)
    show ?thesis
    proof (cases "trigger_search_with_proper_events (typing env ByLabel)")
      case False
      with ev Some show ?thesis by (simp add: use_fields_page_quick_find_def second)
    next
      case True
      show ?thesis
      proof (cases "click_field_from_table unq (results env ByLabel) field_label field_api_name")
        case (Inl e)
        with ev Some True show ?thesis by (simp add: use_fields_page_quick_find_def)
      next
        case (Inr res)
        obtain clicked r where res: "res = (clicked, r)" by (cases res)
        show ?thesis
        proof (cases r)
          case (Some field_id)
          with ev \<open>find_search_box (box_visible env) quick_find_selectors = Some search_box\<close>
            True Inr res
          have "ev \<in> set (clicks_of ByLabel field_label clicked)"
            by (simp add: use_fields_page_quick_find_def)
          with first Inr res show ?thesis by blast
        next
          case None
          with ev \<open>find_search_box (box_visible env) quick_find_selectors = Some search_box\<close>
            True Inr res
          have "ev \<in> set (clicks_of ByLabel field_label clicked)
              \<or> ev \<in> set (snd (second_attempt unq env field_label field_api_name))"
            by (auto simp: use_fields_page_quick_find_def split: prod.splits)
          with first second Inr res show ?thesis by blast
        qed
      qed
    qed
  qed
qed

text \<open>
  The instances of the theorem: a click in the first attempt, and a click
  in the retry.
\<close>

theorem clicked_link_matches_label_witness:
  "snd (use_fields_page_quick_find pct_decode env_found_by_label (VStr ''My Field'') (VStr ''My_Field__c''))
     = [\<lparr>during = ByLabel, search_term = VStr ''My Field'', link_text = ''My Field''\<rparr>]
   \<and> snd (use_fields_page_quick_find pct_decode env_found_by_api_name (VStr ''My Field'') (VStr ''My_Field__c''))
     = [\<lparr>during = ByApiName, search_term = VStr ''My_Field__c'', link_text = ''My Field''\<rparr>]
   \<and> py_lower (link_text \<lparr>during = ByApiName, search_term = VStr ''My_Field__c'', link_text = ''My Field''\<rparr>)
        = py_lower ''My Field''"
proof -
  have a: "snd (use_fields_page_quick_find pct_decode env_found_by_label (VStr ''My Field'') (VStr ''My_Field__c''))
     = [\<lparr>during = ByLabel, search_term = VStr ''My Field'', link_text = ''My Field''\<rparr>]"
    by code_simp
  have b: "snd (use_fields_page_quick_find pct_decode env_found_by_api_name (VStr ''My Field'') (VStr ''My_Field__c''))
     = [\<lparr>during = ByApiName, search_term = VStr ''My_Field__c'', link_text = ''My Field''\<rparr>]"
    by code_simp
  from clicked_link_matches_label [of pct_decode env_found_by_api_name "VStr ''My Field''" "VStr ''My_Field__c''"] b
  have "py_lower (link_text \<lparr>during = ByApiName, search_term = VStr ''My_Field__c'', link_text = ''My Field''\<rparr>)
        = py_lower ''My Field''"
    by simp
  with a b show ?thesis by simp
qed

text \<open>
  Claim C4 as stated asks the text of a link clicked in the retry to equal the API name.
  In the session where the search for the label shows nothing and the search for the API
  name shows the field's row, the retry clicks the link \<open>My Field\<close> while its search term
  is \<open>My_Field__c\<close>.
\<close>

theorem clicked_link_not_search_term:
  "snd (use_fields_page_quick_find pct_decode env_found_by_api_name (VStr ''My Field'') (VStr ''My_Field__c''))
     = [\<lparr>during = ByApiName, search_term = VStr ''My_Field__c'', link_text = ''My Field''\<rparr>]
   \<and> py_lower ''My Field'' \<noteq> py_lower ''My_Field__c''"
  by code_simp

section \<open>Properties of the loop over the work list\<close>

lemma written_not_marker:
  "\<not> (refs_written ws ri src ws' ri' \<and> marker_written ws ri src ws' ri')"
proof
  assume both: "refs_written ws ri src ws' ri' \<and> marker_written ws ri src ws' ri'"
  then obtain field_url refs where refs: "refs \<noteq> []"
    and row: "\<forall>j c. j < length refs \<longrightarrow> ws' (src + ri + 1 + j) c = reference_row (refs ! j) c"
    by (auto simp: refs_written_def)
  from both have marker: "\<forall>c. ws' (src + ri + 1) c = marker_row c"
    by (auto simp: marker_written_def)
  from refs row have "ws' (src + ri + 1 + 0) 10 = reference_row (refs ! 0) 10"
    by (intro row [rule_format]) simp
  with marker have "reference_row (refs ! 0) 10 = marker_row 10" by simp
  then show False
    by (simp add: reference_row_def marker_row_def empty_cell_def)
qed

lemma written_not_skipped:
  "\<not> (refs_written ws ri src ws' ri' \<and> field_skipped ws ri ws' ri')"
  by (auto simp: refs_written_def field_skipped_def)

lemma marker_not_skipped:
  "\<not> (marker_written ws ri src ws' ri' \<and> field_skipped ws ri ws' ri')"
  by (auto simp: marker_written_def field_skipped_def)

lemma exactly_oneI:
  "a \<or> b \<or> c \<Longrightarrow> \<not> (a \<and> b) \<Longrightarrow> \<not> (a \<and> c) \<Longrightarrow> \<not> (b \<and> c) \<Longrightarrow> exactly_one a b c"
  by (auto simp: exactly_one_def)

lemma merge_write_outcome:
  assumes "merge_write ws (src + ri) field_url refs = (ws', Inr n)"
  shows "(refs_written ws ri src ws' (ri + n) \<or> marker_written ws ri src ws' (ri + n))"
proof (cases "refs = []")
  case True
  with assms have empty: "merge_write ws (src + ri) field_url [] = (ws', Inr n)" by simp
  from merge_write_empty [OF empty]
  have "n = 1" and "rows_inserted_at ws ws' (src + ri) 1 field_url"
    and "\<forall>c. ws' (src + ri + 1) c = marker_row c"
    by auto
  then have "marker_written ws ri src ws' (ri + n)"
    unfolding marker_written_def by blast
  then show ?thesis ..
next
  case False
  define kept where "kept = map stored refs"
  from merge_write_refs [OF False assms]
  have "n = length refs" and "rows_inserted_at ws ws' (src + ri) (length refs) field_url"
    and "\<forall>j c. j < length refs \<longrightarrow> ws' (src + ri + 1 + j) c = reference_row (stored (refs ! j)) c"
    by auto
  with False have "kept \<noteq> []" and "ri + n = ri + length kept"
    and "rows_inserted_at ws ws' (src + ri) (length kept) field_url"
    and "\<forall>j c. j < length kept \<longrightarrow> ws' (src + ri + 1 + j) c = reference_row (kept ! j) c"
    by (simp_all add: kept_def)
  then have "refs_written ws ri src ws' (ri + n)"
    unfolding refs_written_def by blast
  then show ?thesis ..
qed

lemma process_field_cases:
  assumes "process_field unq inst oid ws ri field env = (ws', ri', n, fl)"
  shows "ri' = ri + n \<and>
    (refs_written ws ri (original_row field) ws' ri'
     \<or> marker_written ws ri (original_row field) ws' ri'
     \<or> field_skipped ws ri ws' ri'
     \<or> write_interrupted ws ri (original_row field) ws' ri')"
proof -
  let ?found = "fst (find_field_and_get_dependencies unq inst (quick_find env) (goto_deps env)
                (label field) (api_name field) oid)"
  have skip: "ri' = ri + n \<and> field_skipped ws ri ws' ri'"
    if "(ws, ri, 0::nat, fl0) = (ws', ri', n, fl)" for fl0
    using that by (simp add: field_skipped_def)
  show ?thesis
  proof (cases ?found)
    case False
    with assms have "\<exists>fl0. (ws, ri, 0::nat, fl0) = (ws', ri', n, fl)"
      by (auto simp: process_field_def Let_def split: sum.splits)
    with skip show ?thesis by blast
  next
    case True
    show ?thesis
    proof (cases "parse_field_dependencies_page unq inst (parse env)")
      case (Inl e)
      with assms True have "\<exists>fl0. (ws, ri, 0::nat, fl0) = (ws', ri', n, fl)"
        by (auto simp: process_field_def Let_def)
      with skip show ?thesis by blast
    next
      case (Inr res)
      obtain field_url refs where res: "res = (field_url, refs)" by (cases res)
      show ?thesis
      proof (cases "back_nav env")
        case (Inl e)
        with assms True Inr res have "\<exists>fl0. (ws, ri, 0::nat, fl0) = (ws', ri', n, fl)"
          by (auto simp: process_field_def Let_def)
        with skip show ?thesis by blast
      next
        case returned: (Inr u)
        obtain ws1 outcome where mw: "merge_write ws (original_row field + ri) field_url refs = (ws1, outcome)"
          by (cases "merge_write ws (original_row field + ri) field_url refs")
        show ?thesis
        proof (cases outcome)
          case raised: (Inl e)
          with assms True Inr res returned mw have "ws' = ws1" and "ri' = ri" and "n = 0"
            by (simp_all add: process_field_def Let_def)
          with mw raised have "write_interrupted ws ri (original_row field) ws' ri'"
            unfolding write_interrupted_def by blast
          with \<open>ri' = ri\<close> \<open>n = 0\<close> show ?thesis by simp
        next
          case added: (Inr m)
          with assms True Inr res returned mw have "ws' = ws1" and "ri' = ri + n" and "n = m"
            by (simp_all add: process_field_def Let_def)
          with merge_write_outcome [of ws "original_row field" ri field_url refs ws' n] mw added
          show ?thesis by auto
        qed
      qed
    qed
  qed
qed

lemma process_fields_sum:
  "process_fields unq inst oid ws ri items = (ws', ri', counts) \<Longrightarrow> ri' = ri + sum_list counts"
proof (induction items arbitrary: ws ri ws' ri' counts)
  case Nil
  then show ?case by simp
next
  case (Cons item rest)
  obtain field env where item: "item = (field, env)" by (cases item)
  obtain ws1 ri1 n fl where step: "process_field unq inst oid ws ri field env = (ws1, ri1, n, fl)"
    by (cases "process_field unq inst oid ws ri field env") auto
  from process_field_cases [OF step] have ri1: "ri1 = ri + n" by simp
  show ?case
  proof (cases fl)
    case Break
    with Cons.prems item step ri1 show ?thesis by auto
  next
    case Continue
    obtain ws2 ri2 counts2 where rest: "process_fields unq inst oid ws1 ri1 rest = (ws2, ri2, counts2)"
      by (cases "process_fields unq inst oid ws1 ri1 rest") auto
    from Cons.IH [OF rest] have "ri2 = ri1 + sum_list counts2" .
    with Cons.prems item step Continue rest ri1 show ?thesis by auto
  qed
qed

lemma process_fields_prefix:
  "fst (snd (process_fields unq inst oid ws ri xs))
     \<le> fst (snd (process_fields unq inst oid ws ri (xs @ ys)))"
proof (induction xs arbitrary: ws ri)
  case Nil
  obtain ws' ri' counts where r: "process_fields unq inst oid ws ri ys = (ws', ri', counts)"
    by (cases "process_fields unq inst oid ws ri ys") auto
  from process_fields_sum [OF r] r show ?case by simp
next
  case (Cons item rest)
  obtain field env where item: "item = (field, env)" by (cases item)
  obtain ws1 ri1 n fl where step: "process_field unq inst oid ws ri field env = (ws1, ri1, n, fl)"
    by (cases "process_field unq inst oid ws ri field env") auto
  show ?case
  proof (cases fl)
    case Break
    with item step show ?thesis by simp
  next
    case Continue
    obtain wa ra ca where a: "process_fields unq inst oid ws1 ri1 rest = (wa, ra, ca)"
      by (cases "process_fields unq inst oid ws1 ri1 rest") auto
    obtain wb rb cb where b: "process_fields unq inst oid ws1 ri1 (rest @ ys) = (wb, rb, cb)"
      by (cases "process_fields unq inst oid ws1 ri1 (rest @ ys)") auto
    from Cons.IH [of ws1 ri1] a b have "ra \<le> rb" by simp
    with item step Continue a b show ?thesis by simp
  qed
qed

text \<open>
  An iteration in which no write of the merge writer's block raises ends in exactly one
  of the three outcomes of the specification, and what is added to \<open>RowOffset\<close> over a
  run is the sum of what the iterations added.
\<close>

lemma three_outcomes_unless_interrupted:
  assumes "process_field unq inst oid ws ri field env = (ws', ri', n, fl)"
    and "\<not> write_interrupted ws ri (original_row field) ws' ri'"
  shows "exactly_one (refs_written ws ri (original_row field) ws' ri')
           (marker_written ws ri (original_row field) ws' ri')
           (field_skipped ws ri ws' ri')"
proof -
  from process_field_cases [OF assms(1)] assms(2)
  have "refs_written ws ri (original_row field) ws' ri'
     \<or> marker_written ws ri (original_row field) ws' ri'
     \<or> field_skipped ws ri ws' ri'"
    by blast
  then show ?thesis
    by (rule exactly_oneI) (rule written_not_marker written_not_skipped marker_not_skipped)+
qed

text \<open>
  An iteration that leaves \<open>RowOffset\<close> as it was and the worksheet another one has none
  of the three outcomes.
\<close>

lemma no_outcome_when_interrupted:
  assumes "ws' \<noteq> ws"
  shows "\<not> refs_written ws ri src ws' ri"
    and "\<not> marker_written ws ri src ws' ri"
    and "\<not> field_skipped ws ri ws' ri"
  using assms by (auto simp: refs_written_def marker_written_def field_skipped_def)

text \<open>
  Claim C1 says that every work item ends in one of three outcomes: its references
  written and \<open>RowOffset\<close> grown by their number, one marker row written and \<open>RowOffset\<close>
  grown by one, or the field skipped with \<open>RowOffset\<close> unchanged, so that \<open>RowOffset\<close> is
  the sum of the rows inserted so far. The field of row 2 below has two references, the
  second with the control character U+0001 in its name. Its iteration inserts two rows
  below row 2, writes the first reference and the type of the second, and is sent to the
  handler by the exception the name raises: the loop continues with \<open>RowOffset\<close> still 0
  and 0 as the number added, while the field of row 3 stands in row 5. The next
  iteration takes that field to be in row 3: it puts the field's hyperlink on the first
  inserted row and a marker row below it, and the field itself, now in row 6, has no
  marker below it.
\<close>

theorem row_offset_control_character:
  "snd (process_field pct_decode ''x.my.salesforce.com'' object_id_0 sheet_three_tagged 0
          item_row2 field_env_control_char) = (0, 0, Continue)
   \<and> val (fst (process_field pct_decode ''x.my.salesforce.com'' object_id_0 sheet_three_tagged 0
          item_row2 field_env_control_char) 3 9) = VStr ''Layout''
   \<and> val (fst (process_field pct_decode ''x.my.salesforce.com'' object_id_0 sheet_three_tagged 0
          item_row2 field_env_control_char) 4 9) = VStr ''ApexClass''
   \<and> val (fst (process_field pct_decode ''x.my.salesforce.com'' object_id_0 sheet_three_tagged 0
          item_row2 field_env_control_char) 4 10) = VNone
   \<and> val (sheet_three_tagged 3 3) = VNum 3
   \<and> val (fst (process_field pct_decode ''x.my.salesforce.com'' object_id_0 sheet_three_tagged 0
          item_row2 field_env_control_char) 5 3) = VNum 3
   \<and> snd (process_fields pct_decode ''x.my.salesforce.com'' object_id_0 sheet_three_tagged 0
          control_char_items) = (1, [0, 1])
   \<and> hyperlink (fst (process_fields pct_decode ''x.my.salesforce.com'' object_id_0
          sheet_three_tagged 0 control_char_items) 3 1) = Some field_url_0
   \<and> val (fst (process_fields pct_decode ''x.my.salesforce.com'' object_id_0
          sheet_three_tagged 0 control_char_items) 4 9) = VStr ''No references found''
   \<and> val (fst (process_fields pct_decode ''x.my.salesforce.com'' object_id_0
          sheet_three_tagged 0 control_char_items) 6 3) = VNum 3
   \<and> marker_of (fst (process_fields pct_decode ''x.my.salesforce.com'' object_id_0
          sheet_three_tagged 0 control_char_items)) 6 = VNone"
  by code_simp

text \<open>
  So the iteration has none of the three outcomes, and the rows it inserted are not in
  \<open>RowOffset\<close>.
\<close>

lemma control_character_no_outcome:
  "\<not> exactly_one
       (refs_written sheet_three_tagged 0 2
          (fst (process_field pct_decode ''x.my.salesforce.com'' object_id_0 sheet_three_tagged 0
                  item_row2 field_env_control_char)) 0)
       (marker_written sheet_three_tagged 0 2
          (fst (process_field pct_decode ''x.my.salesforce.com'' object_id_0 sheet_three_tagged 0
                  item_row2 field_env_control_char)) 0)
       (field_skipped sheet_three_tagged 0
          (fst (process_field pct_decode ''x.my.salesforce.com'' object_id_0 sheet_three_tagged 0
                  item_row2 field_env_control_char)) 0)"
proof -
  define ws' where "ws' = fst (process_field pct_decode ''x.my.salesforce.com'' object_id_0
      sheet_three_tagged 0 item_row2 field_env_control_char)"
  have "val (ws' 3 9) = VStr ''Layout''" unfolding ws'_def by code_simp
  moreover have "val (sheet_three_tagged 3 9) = VNone" by code_simp
  ultimately have "ws' \<noteq> sheet_three_tagged" by auto
  note none = no_outcome_when_interrupted [OF this]
  from none(1) [of 0 2] none(2) [of 0 2] none(3) [of 0] show ?thesis
    by (simp add: exactly_one_def ws'_def)
qed

text \<open>
  The run of the specification's scenarios on the sheet with three fields: the first
  iteration writes the two references of scenario A, the second the marker row, the
  third skips its field.
\<close>

lemma three_fields_run:
  "fst (snd (process_field pct_decode ''x.my.salesforce.com'' object_id_0 sheet_three_fields 0
               item_row2 field_env_A)) = 2
   \<and> snd (process_fields pct_decode ''x.my.salesforce.com'' object_id_0 sheet_three_fields 0
            (take 2 three_items)) = (3, [2, 1])
   \<and> snd (process_fields pct_decode ''x.my.salesforce.com'' object_id_0 sheet_three_fields 0
            (take 3 three_items)) = (3, [2, 1, 0])"
  by code_simp

section \<open>Properties of the run\<close>

lemma save_step_saves: "\<exists>ok. save_step env = [SaveAttempt ok]"
  by (cases "save_workbook env") (auto simp: save_step_def)

lemma reaches_browserE:
  assumes "\<not> ends_before_browser args env"
  obtains ws max_row items where "file_exists env" and "load_workbook env = Inr (ws, max_row)"
    and "work_list args ws max_row = Inr (Some items)" and "items \<noteq> []"
    and "playwright env = Inr ()"
proof -
  from assms have ex: "file_exists env" by (simp add: ends_before_browser_def)
  show thesis
  proof (cases "load_workbook env")
    case (Inl e)
    with assms show thesis by (simp add: ends_before_browser_def)
  next
    case (Inr loaded)
    obtain ws max_row where loaded: "loaded = (ws, max_row)" by (cases loaded)
    show thesis
    proof (cases "work_list args ws max_row")
      case (Inl e)
      with assms Inr loaded show thesis by (simp add: ends_before_browser_def)
    next
      case wl: (Inr found)
      show thesis
      proof (cases found)
        case None
        with assms Inr loaded wl show thesis by (simp add: ends_before_browser_def)
      next
        case (Some items)
        with assms Inr loaded wl have "items \<noteq> []" and "playwright env = Inr ()"
          by (simp_all add: ends_before_browser_def)
        with ex Inr loaded wl Some show thesis by (intro that) simp_all
      qed
    qed
  qed
qed

lemma main_reaches_browser:
  assumes "file_exists env" and "load_workbook env = Inr (ws, max_row)"
    and "work_list args ws max_row = Inr (Some items)" and "items \<noteq> []"
    and "playwright env = Inr ()"
  shows "fst (main unq args env) = fst (browser_session unq args env ws items)"
  using assms by (cases "browser_session unq args env ws items") (simp add: main_def)

lemma loaded_and_resolved_iff:
  "loaded_and_resolved args env oid \<longleftrightarrow>
     \<not> ends_before_browser args env
     \<and> (\<exists>canonical_url. start_browser env = Started canonical_url
           \<and> resolve_object_id args canonical_url = Some oid)"
  by (auto simp: loaded_and_resolved_def ends_before_browser_def
      split: sum.splits option.splits browser_start.splits)

lemma saved_once_at_endI:
  "\<forall>ev \<in> set pre. \<not> is_save ev \<Longrightarrow> saved_once_at_end (pre @ [SaveAttempt ok])"
  by (simp add: saved_once_at_end_def save_attempts_def is_save_def filter_empty_conv)

lemma close_then_saves:
  "save_attempts (close_then env (save_step env)) \<le> 1"
  "save_attempts (close_then env []) = 0"
  using save_step_saves [of env]
  by (auto simp: close_then_def leave_playwright_def save_attempts_def is_save_def
      split: sum.splits)

lemma browser_session_saves:
  "save_attempts (fst (browser_session unq args env ws items)) \<le> 1"
proof (cases "start_browser env")
  case (LaunchRaises e)
  with save_step_saves [of env] show ?thesis
    by (auto simp: browser_session_def leave_playwright_def save_attempts_def is_save_def
        split: sum.splits)
next
  case (SetupRaises e)
  with close_then_saves(1) [of env] show ?thesis
    by (simp add: browser_session_def save_attempts_def is_save_def)
next
  case (Started canonical_url)
  with close_then_saves [of env] show ?thesis
    by (auto simp: browser_session_def save_attempts_def is_save_def split: option.splits prod.splits)
qed

lemma browser_session_resolved:
  assumes "start_browser env = Started canonical_url"
    and "resolve_object_id args canonical_url = Some oid"
    and "clean_shutdown env"
  shows "saved_once_at_end (fst (browser_session unq args env ws items))"
proof -
  obtain ws' ri counts where run: "process_fields unq (arg_instance args) oid ws 0
      (with_field_envs (field_envs env) items) = (ws', ri, counts)"
    by (cases "process_fields unq (arg_instance args) oid ws 0 (with_field_envs (field_envs env) items)") auto
  from save_step_saves [of env] obtain ok where ok: "save_step env = [SaveAttempt ok]" ..
  from assms run ok have "fst (browser_session unq args env ws items)
      = [FieldsProcessed counts, BrowserClosed] @ [SaveAttempt ok]"
    by (simp add: browser_session_def close_then_def leave_playwright_def clean_shutdown_def)
  moreover have "saved_once_at_end ([FieldsProcessed counts, BrowserClosed] @ [SaveAttempt ok])"
    by (rule saved_once_at_endI) (simp add: is_save_def)
  ultimately show ?thesis by simp
qed

lemma browser_session_unresolved:
  assumes "start_browser env = Started canonical_url"
    and "resolve_object_id args canonical_url = None"
  shows "save_attempts (fst (browser_session unq args env ws items)) = 0"
  using assms close_then_saves(2) [of env]
  by (simp add: browser_session_def save_attempts_def is_save_def)

lemma browser_session_start_fails:
  assumes "clean_shutdown env"
    and "start_browser env = LaunchRaises e \<or> start_browser env = SetupRaises e"
  shows "saved_once_at_end (fst (browser_session unq args env ws items))"
proof -
  from save_step_saves [of env] obtain ok where ok: "save_step env = [SaveAttempt ok]" ..
  from assms ok have "fst (browser_session unq args env ws items) = [CriticalBrowserError] @ [SaveAttempt ok]
      \<or> fst (browser_session unq args env ws items)
          = [CriticalBrowserError, BrowserClosed] @ [SaveAttempt ok]"
    by (auto simp: browser_session_def close_then_def leave_playwright_def clean_shutdown_def)
  moreover have "saved_once_at_end ([CriticalBrowserError] @ [SaveAttempt ok])"
    by (rule saved_once_at_endI) (simp add: is_save_def)
  moreover have "saved_once_at_end ([CriticalBrowserError, BrowserClosed] @ [SaveAttempt ok])"
    by (rule saved_once_at_endI) (simp add: is_save_def)
  ultimately show ?thesis by auto
qed

text \<open>
  Claim C8, as amended. For every run in which the document was loaded and the object
  identifier was resolved, and in which shutting the browser session down does not raise,
  saving is attempted exactly once and is the last thing the run does, whatever happened
  to the single fields, a halt of the loop after a failed recovery included. No save is
  attempted when the run ends before the browser session (missing file, unreadable sheet,
  start label not found, empty work list, Playwright not starting) or when the object
  identifier is not resolved; in every other run with a clean shutdown the save is
  attempted once, at the end. No run attempts to save twice.
\<close>

theorem saved_once_when_resolved:
  "(loaded_and_resolved args env oid \<and> clean_shutdown env \<longrightarrow>
      saved_once_at_end (fst (main unq args env)))
   \<and> (ends_before_browser args env \<or> object_id_unresolved args env \<longrightarrow>
      save_attempts (fst (main unq args env)) = 0)
   \<and> (\<not> ends_before_browser args env \<and> \<not> object_id_unresolved args env \<and> clean_shutdown env \<longrightarrow>
      saved_once_at_end (fst (main unq args env)))
   \<and> save_attempts (fst (main unq args env)) \<le> 1"
proof (intro conjI impI)
  assume h: "loaded_and_resolved args env oid \<and> clean_shutdown env"
  then have reach: "\<not> ends_before_browser args env" and cl: "clean_shutdown env"
    by (simp_all add: loaded_and_resolved_iff)
  from h obtain canonical_url where sb: "start_browser env = Started canonical_url"
    and oid: "resolve_object_id args canonical_url = Some oid"
    by (auto simp: loaded_and_resolved_iff)
  from reach obtain ws max_row items where
    ex: "file_exists env" and load: "load_workbook env = Inr (ws, max_row)"
    and wl: "work_list args ws max_row = Inr (Some items)" and ne: "items \<noteq> []"
    and pw: "playwright env = Inr ()"
    by (rule reaches_browserE)
  from browser_session_resolved [OF sb oid cl, of unq ws items]
  show "saved_once_at_end (fst (main unq args env))"
    by (simp add: main_reaches_browser [OF ex load wl ne pw])
next
  assume h: "ends_before_browser args env \<or> object_id_unresolved args env"
  show "save_attempts (fst (main unq args env)) = 0"
  proof (cases "ends_before_browser args env")
    case True
    then show ?thesis
      by (auto simp: ends_before_browser_def main_def save_attempts_def is_save_def
          split: sum.splits option.splits prod.splits)
  next
    case False
    with h have un: "object_id_unresolved args env" by simp
    from False obtain ws max_row items where
      ex: "file_exists env" and load: "load_workbook env = Inr (ws, max_row)"
      and wl: "work_list args ws max_row = Inr (Some items)" and ne: "items \<noteq> []"
      and pw: "playwright env = Inr ()"
      by (rule reaches_browserE)
    from un obtain canonical_url where sb: "start_browser env = Started canonical_url"
      and none: "resolve_object_id args canonical_url = None"
      by (auto simp: object_id_unresolved_def split: browser_start.splits)
    from browser_session_unresolved [OF sb none, of unq ws items]
    show ?thesis
      by (simp add: main_reaches_browser [OF ex load wl ne pw])
  qed
next
  assume h: "\<not> ends_before_browser args env \<and> \<not> object_id_unresolved args env \<and> clean_shutdown env"
  then have cl: "clean_shutdown env" by simp
  from h obtain ws max_row items where
    ex: "file_exists env" and load: "load_workbook env = Inr (ws, max_row)"
    and wl: "work_list args ws max_row = Inr (Some items)" and ne: "items \<noteq> []"
    and pw: "playwright env = Inr ()"
    by (blast elim: reaches_browserE)
  have "saved_once_at_end (fst (browser_session unq args env ws items))"
  proof (cases "start_browser env")
    case (LaunchRaises e)
    with cl show ?thesis by (intro browser_session_start_fails) simp_all
  next
    case (SetupRaises e)
    with cl show ?thesis by (intro browser_session_start_fails) simp_all
  next
    case (Started canonical_url)
    with h obtain oid where "resolve_object_id args canonical_url = Some oid"
      by (auto simp: object_id_unresolved_def)
    from browser_session_resolved [OF Started this cl] show ?thesis .
  qed
  then show "saved_once_at_end (fst (main unq args env))"
    by (simp add: main_reaches_browser [OF ex load wl ne pw])
next
  show "save_attempts (fst (main unq args env)) \<le> 1"
  proof (cases "ends_before_browser args env")
    case True
    then show ?thesis
      by (auto simp: ends_before_browser_def main_def save_attempts_def is_save_def
          split: sum.splits option.splits prod.splits)
  next
    case False
    then obtain ws max_row items where
      ex: "file_exists env" and load: "load_workbook env = Inr (ws, max_row)"
      and wl: "work_list args ws max_row = Inr (Some items)" and ne: "items \<noteq> []"
      and pw: "playwright env = Inr ()"
      by (rule reaches_browserE)
    from browser_session_saves [of unq args env ws items]
    show ?thesis
      by (simp add: main_reaches_browser [OF ex load wl ne pw])
  qed
qed

text \<open>
  The instances of the theorem: a run over three fields, a run that halts
  at its first field, a run that cannot resolve the object identifier of a standard object,
  and a run over a sheet whose only field is processed already.
\<close>

theorem saved_once_when_resolved_witness:
  "loaded_and_resolved args_plain env_three_fields object_id_0
   \<and> clean_shutdown env_three_fields
   \<and> fst (main pct_decode args_plain env_three_fields)
        = [FieldsProcessed [2, 1, 0], BrowserClosed, SaveAttempt True]
   \<and> saved_once_at_end (fst (main pct_decode args_plain env_three_fields))
   \<and> loaded_and_resolved args_plain env_halts object_id_0
   \<and> clean_shutdown env_halts
   \<and> fst (main pct_decode args_plain env_halts) = [FieldsProcessed [0], BrowserClosed, SaveAttempt True]
   \<and> saved_once_at_end (fst (main pct_decode args_plain env_halts))
   \<and> object_id_unresolved args_plain env_standard_object
   \<and> save_attempts (fst (main pct_decode args_plain env_standard_object)) = 0
   \<and> ends_before_browser args_given_id env_all_processed
   \<and> save_attempts (fst (main pct_decode args_given_id env_all_processed)) = 0"
proof -
  have r1: "loaded_and_resolved args_plain env_three_fields object_id_0" by code_simp
  have c1: "clean_shutdown env_three_fields" by code_simp
  have e1: "fst (main pct_decode args_plain env_three_fields)
        = [FieldsProcessed [2, 1, 0], BrowserClosed, SaveAttempt True]" by code_simp
  from saved_once_when_resolved [of args_plain env_three_fields object_id_0 pct_decode] r1 c1
  have s1: "saved_once_at_end (fst (main pct_decode args_plain env_three_fields))" by blast
  have r2: "loaded_and_resolved args_plain env_halts object_id_0" by code_simp
  have c2: "clean_shutdown env_halts" by code_simp
  have e2: "fst (main pct_decode args_plain env_halts)
        = [FieldsProcessed [0], BrowserClosed, SaveAttempt True]" by code_simp
  from saved_once_when_resolved [of args_plain env_halts object_id_0 pct_decode] r2 c2
  have s2: "saved_once_at_end (fst (main pct_decode args_plain env_halts))" by blast
  have u3: "object_id_unresolved args_plain env_standard_object" by code_simp
  from saved_once_when_resolved [of args_plain env_standard_object object_id_0 pct_decode] u3
  have s3: "save_attempts (fst (main pct_decode args_plain env_standard_object)) = 0" by blast
  have b4: "ends_before_browser args_given_id env_all_processed" by code_simp
  from saved_once_when_resolved [of args_given_id env_all_processed object_id_0 pct_decode] b4
  have s4: "save_attempts (fst (main pct_decode args_given_id env_all_processed)) = 0" by blast
  from r1 c1 e1 s1 r2 c2 e2 s2 u3 s3 b4 s4 show ?thesis by blast
qed

text \<open>
  Claim C8 as stated names the missing file, the unreadable sheet and the unresolved
  object identifier as the only cases without a save. The run over the processed sheet has
  none of them (the file exists, the sheet loads, the identifier is given on the command
  line) and ends at the empty work list without saving.
\<close>

theorem no_save_without_fatal_condition:
  "file_exists env_all_processed
   \<and> load_workbook env_all_processed = Inr (sheet_processed, 3)
   \<and> start_browser env_all_processed = Started url_custom_object
   \<and> resolve_object_id args_given_id url_custom_object = Some object_id_0
   \<and> fst (main pct_decode args_given_id env_all_processed) = [NothingToProcess]
   \<and> save_attempts (fst (main pct_decode args_given_id env_all_processed)) = 0"
proof -
  have "file_exists env_all_processed"
    and "load_workbook env_all_processed = Inr (sheet_processed, 3)"
    and "start_browser env_all_processed = Started url_custom_object"
    by (simp_all add: env_all_processed_def env_three_fields_def)
  moreover have "resolve_object_id args_given_id url_custom_object = Some object_id_0"
    by code_simp
  moreover have "fst (main pct_decode args_given_id env_all_processed) = [NothingToProcess]"
    by code_simp
  ultimately show ?thesis
    by (simp add: save_attempts_def is_save_def)
qed

text \<open>
  When closing the browser raises in the \<open>finally\<close> block, the exception leaves \<open>main\<close>
  and the statements that save are not reached.
\<close>

lemma close_raises_no_save:
  "fst (main pct_decode args_plain env_close_raises) = [FieldsProcessed [2, 1, 0], Uncaught Error]"
  by code_simp

section \<open>From the parser to the marker\<close>

text \<open>
  What the parser hands to the merge writer has a non-empty type and name in every
  reference, so every iteration that inserts rows leaves a truthy marker below the field,
  which is what the next pre-scan looks at.
\<close>

lemma filter_refs_subset: "set (filter_refs refs) \<subseteq> set refs"
proof
  fix r assume "r \<in> set (filter_refs refs)"
  then have "r \<in> set (filter is_plain refs) \<or> r \<in> set (flow_survivors refs)"
    by (simp add: filter_refs_split flow_survivors_eq)
  then show "r \<in> set refs"
    using survivor_is_last [of r refs] by auto
qed

lemma read_row_typed:
  "read_row unq inst row = Some ref \<Longrightarrow> ref_type ref \<noteq> [] \<and> ref_name ref \<noteq> []"
  by (auto simp: read_row_def Let_def ref_type_def ref_name_def
      split: sum.splits if_splits)

lemma read_rows_typed:
  "ref \<in> set (read_rows unq inst data_rows) \<Longrightarrow> ref_type ref \<noteq> [] \<and> ref_name ref \<noteq> []"
proof (induction data_rows)
  case Nil
  then show ?case by simp
next
  case (Cons row data_rows)
  then show ?case
    using read_row_typed [of unq inst row]
    by (cases "read_row unq inst row") auto
qed

lemma parse_refs_typed:
  assumes "parse_field_dependencies_page unq inst dp = Inr (field_url, refs)"
    and "ref \<in> set refs"
  shows "ref_type ref \<noteq> [] \<and> ref_name ref \<noteq> []"
proof -
  from assms obtain table where "refs = filter_refs (read_table unq inst table)"
    by (auto simp: parse_field_dependencies_page_def Let_def split: sum.splits option.splits)
  with assms(2) filter_refs_subset have "ref \<in> set (read_table unq inst table)"
    by blast
  then show ?thesis
    using read_rows_typed by (cases table) (auto simp: read_table_def)
qed

lemma process_field_marks:
  assumes "process_field unq inst oid ws ri field env = (ws', ri', n, fl)" and "0 < n"
  shows "truthy (marker_of ws' (original_row field + ri))"
proof -
  from assms obtain field_url refs where
    parsed: "parse_field_dependencies_page unq inst (parse env) = Inr (field_url, refs)"
    and mw: "merge_write ws (original_row field + ri) field_url refs = (ws', Inr n)"
    by (auto simp: process_field_def Let_def split: if_splits sum.splits prod.splits)
  from parse_refs_typed [OF parsed] have "\<forall>ref \<in> set refs. ref_type ref \<noteq> []"
    by blast
  from merge_write_marks [OF this mw] show ?thesis .
qed

end
